theory Spec2Isabelle
  imports Main "HOL-Library.List_Lexorder"
begin

section \<open>Python strings\<close>

text \<open>
  A Python \<open>str\<close> is a sequence of Unicode code points, and \<open>len\<close> counts code
  points. The program works on text with the bullet U+2022 and accented letters, so a
  string is modelled as the list of its code points.
\<close>

type_synonym ustr = "nat list"

definition u :: "string \<Rightarrow> ustr" where
  "u s = map of_char s"

text \<open>
  \<open>str.isspace\<close> of one character; the regular expression class \<open>\s\<close> of a \<open>str\<close>
  pattern is the same set, and \<open>str.strip()\<close> removes exactly these characters.
\<close>

definition py_isspace :: "nat \<Rightarrow> bool" where
  "py_isspace c \<longleftrightarrow>
     (9 \<le> c \<and> c \<le> 13) \<or> (28 \<le> c \<and> c \<le> 32) \<or> c = 133 \<or> c = 160 \<or> c = 5760 \<or>
     (8192 \<le> c \<and> c \<le> 8202) \<or> c = 8232 \<or> c = 8233 \<or> c = 8239 \<or> c = 8287 \<or> c = 12288"

text \<open>
  The class \<open>\d\<close> of a \<open>str\<close> pattern: the decimal digits of Unicode (category Nd,
  Unicode 14), which come in runs of ten from the code points below, and one run of
  fifty (the mathematical digits from U+1D7CE).
\<close>

definition nd_starts :: "nat list" where
  "nd_starts =
     [0x30, 0x660, 0x6F0, 0x7C0, 0x966, 0x9E6, 0xA66, 0xAE6, 0xB66, 0xBE6, 0xC66, 0xCE6,
      0xD66, 0xDE6, 0xE50, 0xED0, 0xF20, 0x1040, 0x1090, 0x17E0, 0x1810, 0x1946, 0x19D0,
      0x1A80, 0x1A90, 0x1B50, 0x1BB0, 0x1C40, 0x1C50, 0xA620, 0xA8D0, 0xA900, 0xA9D0,
      0xA9F0, 0xAA50, 0xABF0, 0xFF10, 0x104A0, 0x10D30, 0x11066, 0x110F0, 0x11136,
      0x111D0, 0x112F0, 0x11450, 0x114D0, 0x11650, 0x116C0, 0x11730, 0x118E0, 0x11950,
      0x11C50, 0x11D50, 0x11DA0, 0x16A60, 0x16AC0, 0x16B50, 0x1D7CE, 0x1D7D8, 0x1D7E2,
      0x1D7EC, 0x1D7F6, 0x1E140, 0x1E2F0, 0x1E950, 0x1FBF0]"

definition py_isdigit :: "nat \<Rightarrow> bool" where
  "py_isdigit c \<longleftrightarrow> list_ex (\<lambda>b. b \<le> c \<and> c < b + 10) nd_starts"

definition strip :: "ustr \<Rightarrow> ustr" where
  \<comment> \<open>\<open>s.strip()\<close>\<close>
  "strip s = rev (dropWhile py_isspace (rev (dropWhile py_isspace s)))"

fun push_char :: "nat \<Rightarrow> ustr list \<Rightarrow> ustr list" where
  \<comment> \<open>one more character at the front of the first piece\<close>
  "push_char c [] = [[c]]"
| "push_char c (p # ps) = (c # p) # ps"

fun split_on :: "nat \<Rightarrow> ustr \<Rightarrow> ustr list" where
  \<comment> \<open>\<open>s.split(sep)\<close> for a separator of one character: one more piece than separators\<close>
  "split_on sep [] = [[]]"
| "split_on sep (c # s) =
     (if c = sep then [] # split_on sep s
      else push_char c (split_on sep s))"

fun startswith :: "ustr \<Rightarrow> ustr \<Rightarrow> bool" where
  \<comment> \<open>\<open>s.startswith(p)\<close>, written \<open>startswith p s\<close>\<close>
  "startswith [] s = True"
| "startswith (a # p) [] = False"
| "startswith (a # p) (c # s) = (a = c \<and> startswith p s)"

fun contains :: "ustr \<Rightarrow> ustr \<Rightarrow> bool" where
  \<comment> \<open>\<open>p in s\<close> for strings, written \<open>contains p s\<close>\<close>
  "contains p [] = (p = [])"
| "contains p (c # s) = (startswith p (c # s) \<or> contains p s)"

section \<open>The regular expressions of the program\<close>

text \<open>
  Every pattern of the program is a sequence of anchors and of quantified character
  classes (a literal is a class of one character, repeated once); there is no
  alternation and no quantifier over a group. A pattern is a list of atoms, each with a
  flag that tells whether it is a capturing group. \<open>Rep p lo hi greedy\<close> is the class
  \<open>p\<close> repeated \<open>lo\<close> to \<open>hi\<close> times (\<open>None\<close>: unbounded); \<open>Bol\<close> is \<open>^\<close> and \<open>Eol\<close> is
  \<open>$\<close> (no pattern of the program sets MULTILINE).
\<close>

datatype atom = Rep "nat \<Rightarrow> bool" nat "nat option" bool | Bol | Eol

type_synonym pattern = "(bool \<times> atom) list"

definition counts :: "bool \<Rightarrow> nat \<Rightarrow> nat option \<Rightarrow> nat \<Rightarrow> nat list" where
  \<comment> \<open>the repetition counts a quantifier tries, in the order of the backtracking
      matcher: a greedy one from the longest down, a lazy one from the shortest up\<close>
  "counts greedy lo hi avail =
     (let mx = (case hi of None \<Rightarrow> avail | Some h \<Rightarrow> min h avail);
          ks = [lo..<Suc mx]
      in if greedy then rev ks else ks)"

fun match_items :: "pattern \<Rightarrow> nat \<Rightarrow> ustr \<Rightarrow> (ustr list \<times> ustr) option"
  and match_rep :: "bool \<Rightarrow> pattern \<Rightarrow> nat \<Rightarrow> ustr \<Rightarrow> nat list \<Rightarrow> (ustr list \<times> ustr) option"
where
  \<comment> \<open>\<open>match_items pat pos s\<close>: the match of a pattern at position \<open>pos\<close>, where \<open>s\<close> is the
      text from \<open>pos\<close> on; it gives the captured groups and the text after the match.
      \<open>match_rep cap r pos s ks\<close>: the first repetition count of \<open>ks\<close> after which the rest
      \<open>r\<close> of the pattern matches (backtracking)\<close>
  "match_items [] pos s = Some ([], s)"
| "match_items ((cap, Bol) # r) pos s =
     (if pos = 0 then match_items r pos s else None)"
| "match_items ((cap, Eol) # r) pos s =
     (if s = [] \<or> s = [10] then match_items r pos s else None)"
| "match_items ((cap, Rep p lo hi greedy) # r) pos s =
     match_rep cap r pos s (counts greedy lo hi (length (takeWhile p s)))"
| "match_rep cap r pos s [] = None"
| "match_rep cap r pos s (k # ks) =
     (case match_items r (pos + k) (drop k s) of
        None \<Rightarrow> match_rep cap r pos s ks
      | Some (gs, t) \<Rightarrow> Some ((if cap then [take k s] else []) @ gs, t))"

datatype rtok = Lit ustr | Group nat

fun expand :: "rtok list \<Rightarrow> ustr list \<Rightarrow> ustr" where
  \<comment> \<open>a replacement template: \<open>Group n\<close> is \<open>\n\<close>\<close>
  "expand [] gs = []"
| "expand (Lit s # r) gs = s @ expand r gs"
| "expand (Group n # r) gs = (if 0 < n \<and> n \<le> length gs then gs ! (n - 1) else []) @ expand r gs"

function re_sub_at :: "pattern \<Rightarrow> rtok list \<Rightarrow> nat \<Rightarrow> ustr \<Rightarrow> ustr" where
  \<comment> \<open>\<open>re.sub\<close> from position \<open>pos\<close> on: the leftmost match is replaced and the scan goes
      on after it; where there is no match the character is copied\<close>
  "re_sub_at pat repl pos [] =
     (case match_items pat pos [] of None \<Rightarrow> [] | Some (gs, t) \<Rightarrow> expand repl gs)"
| "re_sub_at pat repl pos (c # s) =
     (case match_items pat pos (c # s) of
        None \<Rightarrow> c # re_sub_at pat repl (Suc pos) s
      | Some (gs, t) \<Rightarrow>
          if length t < length (c # s)
          then expand repl gs @ re_sub_at pat repl (pos + (length (c # s) - length t)) t
          else expand repl gs @ c # re_sub_at pat repl (Suc pos) s)"
  by pat_completeness auto
termination
  by (relation "measure (\<lambda>(pat, repl, pos, s). length s)") auto

text \<open>
  No pattern the program gives to \<open>re.sub\<close> or \<open>re.split\<close> matches the empty string
  (lemma \<open>patterns_consume\<close> below), so the rule of \<open>re.sub\<close> for empty matches never
  applies: in the model an empty match copies the character and the scan goes on.
\<close>

definition re_sub :: "pattern \<Rightarrow> rtok list \<Rightarrow> ustr \<Rightarrow> ustr" where
  "re_sub pat repl s = re_sub_at pat repl 0 s"

function re_split_at :: "pattern \<Rightarrow> nat \<Rightarrow> ustr \<Rightarrow> ustr list" where
  \<comment> \<open>\<open>re.split\<close> for a pattern without groups\<close>
  "re_split_at pat pos [] = [[]]"
| "re_split_at pat pos (c # s) =
     (case match_items pat pos (c # s) of
        None \<Rightarrow> push_char c (re_split_at pat (Suc pos) s)
      | Some (gs, t) \<Rightarrow>
          if length t < length (c # s)
          then [] # re_split_at pat (pos + (length (c # s) - length t)) t
          else push_char c (re_split_at pat (Suc pos) s))"
  by pat_completeness auto
termination
  by (relation "measure (\<lambda>(pat, pos, s). length s)") auto

definition re_split :: "pattern \<Rightarrow> ustr \<Rightarrow> ustr list" where
  "re_split pat s = re_split_at pat 0 s"

definition re_match :: "pattern \<Rightarrow> ustr \<Rightarrow> bool" where
  \<comment> \<open>\<open>re.match\<close> as a truth value: a match at position 0\<close>
  "re_match pat s \<longleftrightarrow> match_items pat 0 s \<noteq> None"

fun re_search_at :: "pattern \<Rightarrow> nat \<Rightarrow> ustr \<Rightarrow> bool" where
  "re_search_at pat pos [] = (match_items pat pos [] \<noteq> None)"
| "re_search_at pat pos (c # s) =
     (match_items pat pos (c # s) \<noteq> None \<or> re_search_at pat (Suc pos) s)"

definition re_search :: "pattern \<Rightarrow> ustr \<Rightarrow> bool" where
  \<comment> \<open>\<open>re.search\<close> as a truth value: a match at some position\<close>
  "re_search pat s = re_search_at pat 0 s"


fun min_length :: "pattern \<Rightarrow> nat" where
  \<comment> \<open>the least number of characters a match of the pattern has\<close>
  "min_length [] = 0"
| "min_length ((cap, Rep p lo hi greedy) # r) = lo + min_length r"
| "min_length ((cap, Bol) # r) = min_length r"
| "min_length ((cap, Eol) # r) = min_length r"

subsection \<open>Pattern notation\<close>

definition lit :: "ustr \<Rightarrow> pattern" where
  \<comment> \<open>a literal string: each character once\<close>
  "lit s = map (\<lambda>a. (False, Rep (\<lambda>c. c = a) 1 (Some 1) True)) s"

definition case_variants :: "nat \<Rightarrow> nat list" where
  \<comment> \<open>the characters a literal letter matches under \<open>re.IGNORECASE\<close> in a \<open>str\<close>
      pattern: both cases, and for \<open>i\<close>, \<open>k\<close> and \<open>s\<close> the letters U+0130 and U+0131,
      U+212A, U+017F that lower-case to them\<close>
  "case_variants a =
     (if a = 73 \<or> a = 105 then [73, 105, 304, 305]
      else if a = 75 \<or> a = 107 then [75, 107, 8490]
      else if a = 83 \<or> a = 115 then [83, 115, 383]
      else if 65 \<le> a \<and> a \<le> 90 then [a, a + 32]
      else if 97 \<le> a \<and> a \<le> 122 then [a - 32, a]
      else [a])"

definition lit_ci :: "ustr \<Rightarrow> pattern" where
  \<comment> \<open>a literal string under \<open>re.IGNORECASE\<close>\<close>
  "lit_ci s = map (\<lambda>a. (False, Rep (\<lambda>c. c \<in> set (case_variants a)) 1 (Some 1) True)) s"

definition many1 :: "(nat \<Rightarrow> bool) \<Rightarrow> bool \<times> atom" where
  "many1 p = (False, Rep p 1 None True)"

definition many0 :: "(nat \<Rightarrow> bool) \<Rightarrow> bool \<times> atom" where
  "many0 p = (False, Rep p 0 None True)"

definition group_many1 :: "(nat \<Rightarrow> bool) \<Rightarrow> bool \<times> atom" where
  \<comment> \<open>\<open>(p+)\<close>, a capturing group\<close>
  "group_many1 p = (True, Rep p 1 None True)"

section \<open>CorpusGenerator\<close>

subsection \<open>limpiar_texto\<close>

definition pat_headers :: pattern where
  \<comment> \<open>\<open>#{1,6}\s+\<close>\<close>
  "pat_headers = [(False, Rep (\<lambda>c. c = 35) 1 (Some 6) True), many1 py_isspace]"

definition pat_bold :: pattern where
  \<comment> \<open>\<open>\*\*([^*]+)\*\*\<close>\<close>
  "pat_bold = lit (u ''**'') @ [group_many1 (\<lambda>c. c \<noteq> 42)] @ lit (u ''**'')"

definition pat_italic :: pattern where
  \<comment> \<open>\<open>\*([^*]+)\*\<close>\<close>
  "pat_italic = lit (u ''*'') @ [group_many1 (\<lambda>c. c \<noteq> 42)] @ lit (u ''*'')"

definition pat_code :: pattern where
  \<comment> \<open>a backquote, \<open>([^`]+)\<close>, a backquote\<close>
  "pat_code = lit [96] @ [group_many1 (\<lambda>c. c \<noteq> 96)] @ lit [96]"

definition pat_links :: pattern where
  \<comment> \<open>\<open>\[([^\]]+)\]\([^)]+\)\<close>\<close>
  "pat_links = lit (u ''['') @ [group_many1 (\<lambda>c. c \<noteq> 93)] @ lit (u '']('') @
               [many1 (\<lambda>c. c \<noteq> 41)] @ lit (u '')'')"

definition pat_image :: pattern where
  "pat_image = lit (u ''<!-- image -->'')"

definition pat_newlines :: pattern where
  \<comment> \<open>\<open>\n+\<close>\<close>
  "pat_newlines = [many1 (\<lambda>c. c = 10)]"

definition pat_blanks :: pattern where
  \<comment> \<open>\<open>[ \t]+\<close>\<close>
  "pat_blanks = [many1 (\<lambda>c. c = 32 \<or> c = 9)]"

definition limpiar_texto :: "ustr \<Rightarrow> ustr" where
  "limpiar_texto texto =
     (let t1 = re_sub pat_headers [] texto;
          t2 = re_sub pat_bold [Group 1] t1;
          t3 = re_sub pat_italic [Group 1] t2;
          t4 = re_sub pat_code [Group 1] t3;
          t5 = re_sub pat_links [Group 1] t4;
          t6 = re_sub pat_image [] t5;
          t7 = re_sub pat_newlines [Lit [10]] t6;
          t8 = re_sub pat_blanks [Lit [32]] t7
      in strip t8)"

subsection \<open>limpiar_oracion\<close>

definition pat_list_dash :: pattern where
  \<comment> \<open>\<open>^-\s+\<close>\<close>
  "pat_list_dash = [(False, Bol)] @ lit (u ''-'') @ [many1 py_isspace]"

definition pat_trailing_number :: pattern where
  \<comment> \<open>\<open>[.:]?\s*\d+\s*$\<close>\<close>
  "pat_trailing_number =
     [(False, Rep (\<lambda>c. c = 46 \<or> c = 58) 0 (Some 1) True), many0 py_isspace,
      many1 py_isdigit, many0 py_isspace, (False, Eol)]"

definition pat_dot_leader :: pattern where
  \<comment> \<open>\<open>\.{3,}.*?\d+\s*$\<close>; the dot matches every character but the newline, lazily\<close>
  "pat_dot_leader =
     [(False, Rep (\<lambda>c. c = 46) 3 None True), (False, Rep (\<lambda>c. c \<noteq> 10) 0 None False),
      many1 py_isdigit, many0 py_isspace, (False, Eol)]"

definition pat_dots :: pattern where
  \<comment> \<open>\<open>\.{3,}\<close>\<close>
  "pat_dots = [(False, Rep (\<lambda>c. c = 46) 3 None True)]"

definition pat_divider :: pattern where
  \<comment> \<open>\<open>^[\s\|\-]+$\<close>\<close>
  "pat_divider = [(False, Bol), many1 (\<lambda>c. py_isspace c \<or> c = 124 \<or> c = 45), (False, Eol)]"

definition pat_dash_cell :: pattern where
  \<comment> \<open>\<open>^[\-\s]+$\<close>\<close>
  "pat_dash_cell = [(False, Bol), many1 (\<lambda>c. c = 45 \<or> py_isspace c), (False, Eol)]"

definition pat_digits :: pattern where
  \<comment> \<open>\<open>^\d+$\<close>\<close>
  "pat_digits = [(False, Bol), many1 py_isdigit, (False, Eol)]"

definition pat_comma :: pattern where
  \<comment> \<open>\<open>^,\s+\<close>\<close>
  "pat_comma = [(False, Bol)] @ lit (u '','') @ [many1 py_isspace]"

definition pat_spaces :: pattern where
  \<comment> \<open>\<open>\s+\<close>\<close>
  "pat_spaces = [many1 py_isspace]"

definition bullet :: nat where
  \<comment> \<open>the bullet character U+2022\<close>
  "bullet = 8226"

definition pipe :: nat where
  "pipe = 124"

definition oracion_previa :: "ustr \<Rightarrow> ustr" where
  \<comment> \<open>the statements of \<open>limpiar_oracion\<close> before the table branch: \<open>strip\<close>, then the
      rules A, B and the two rules for dot leaders\<close>
  "oracion_previa oracion =
     (let o1 = strip oracion;
          o2 = re_sub pat_list_dash [] o1;
          o3 = re_sub pat_trailing_number [] o2;
          o4 = re_sub pat_dot_leader [] o3
      in re_sub pat_dots [] o4)"

definition celdas_de_celda :: "ustr \<Rightarrow> ustr list" where
  \<comment> \<open>the body of the loop over \<open>celdas\<close> in \<open>limpiar_oracion\<close>: what one cell appends
      to \<open>celdas_limpias\<close>\<close>
  "celdas_de_celda celda0 =
     (let celda = strip celda0 in
      if celda = [] \<or> re_match pat_dash_cell celda then []
      else if re_match pat_digits celda then []
      else
        let celda = strip (re_sub pat_dots [] (re_sub pat_dot_leader [] celda)) in
        if bullet \<in> set celda
        then filter (\<lambda>sub_oracion. sub_oracion \<noteq> [] \<and> 3 < length sub_oracion)
               (map strip (split_on bullet celda))
        else if 3 < length celda then [celda] else [])"

definition celdas_limpias :: "ustr \<Rightarrow> ustr list" where
  "celdas_limpias oracion = concat (map celdas_de_celda (split_on pipe oracion))"

definition limpiar_oracion :: "ustr \<Rightarrow> ustr" where
  "limpiar_oracion oracion0 =
     (let oracion = oracion_previa oracion0 in
      if pipe \<in> set oracion then
        (if re_match pat_divider oracion then []
         else (case celdas_limpias oracion of [] \<Rightarrow> [] | primera # otras \<Rightarrow> primera))
      else
        let o6 = (if startswith [bullet] oracion then strip (drop 1 oracion) else oracion);
            o7 = re_sub pat_comma [] o6
        in strip (re_sub pat_spaces [Lit [32]] o7))"

subsection \<open>procesar_tablas and segmentar_oraciones\<close>

definition tabla_celda :: "ustr \<Rightarrow> ustr list" where
  \<comment> \<open>the body of the loop over \<open>celdas\<close> in \<open>procesar_tablas\<close>\<close>
  "tabla_celda celda0 =
     (let celda = strip celda0 in
      if celda = [] \<or> re_match pat_dash_cell celda then []
      else if re_match pat_digits celda then []
      else
        let celda = strip (re_sub pat_dots [] (re_sub pat_dot_leader [] celda)) in
        if celda = [] \<or> length celda \<le> 3 then []
        else if bullet \<in> set celda
        then filter (\<lambda>limpia. limpia \<noteq> [] \<and> 3 < length limpia)
               (map limpiar_oracion (split_on bullet celda))
        else filter (\<lambda>limpia. limpia \<noteq> [] \<and> 3 < length limpia) [limpiar_oracion celda])"

definition tabla_linea :: "ustr \<Rightarrow> ustr list" where
  \<comment> \<open>the body of the loop over \<open>lineas\<close> in \<open>procesar_tablas\<close>\<close>
  "tabla_linea linea =
     (if pipe \<in> set linea then
        (if re_match pat_divider linea then []
         else concat (map tabla_celda (split_on pipe linea)))
      else [])"

definition procesar_tablas :: "ustr \<Rightarrow> ustr list" where
  "procesar_tablas texto = concat (map tabla_linea (split_on 10 texto))"

definition pat_final_punct :: pattern where
  \<comment> \<open>\<open>[.!?;:]$\<close>\<close>
  "pat_final_punct =
     [(False, Rep (\<lambda>c. c = 46 \<or> c = 33 \<or> c = 63 \<or> c = 59 \<or> c = 58) 1 (Some 1) True),
      (False, Eol)]"

definition pat_sentence_end :: pattern where
  \<comment> \<open>\<open>[.!?]+\<close>\<close>
  "pat_sentence_end = [many1 (\<lambda>c. c = 46 \<or> c = 33 \<or> c = 63)]"

definition oraciones_validas :: "ustr list \<Rightarrow> ustr list" where
  \<comment> \<open>\<open>limpiar_oracion\<close> on every fragment, kept \<open>if limpio and len(limpio) >= 3\<close>\<close>
  "oraciones_validas fragmentos =
     filter (\<lambda>limpio. limpio \<noteq> [] \<and> 3 \<le> length limpio) (map limpiar_oracion fragmentos)"

definition normal_linea :: "ustr \<Rightarrow> ustr list" where
  \<comment> \<open>the body of the second loop over \<open>lineas\<close> in \<open>segmentar_oraciones\<close>\<close>
  "normal_linea linea0 =
     (if pipe \<in> set linea0 then []
      else
        let linea = strip linea0 in
        if length linea < 3 then []
        else if bullet \<in> set linea then oraciones_validas (split_on bullet linea)
        else if \<not> re_search pat_final_punct linea then oraciones_validas [linea]
        else oraciones_validas (re_split pat_sentence_end linea))"

definition segmentar_oraciones :: "ustr \<Rightarrow> ustr list" where
  "segmentar_oraciones texto =
     procesar_tablas texto @ concat (map normal_linea (split_on 10 texto))"

subsection \<open>The language classifier\<close>

text \<open>
  Two functions of the Python runtime and of the \<open>langdetect\<close> library are parameters
  of the model: \<open>str.lower\<close> (the Unicode lower-casing of a string) and \<open>detect\<close>, which
  returns a language code or raises \<open>LangDetectException\<close>.
\<close>

datatype detect_result = Code ustr | LangDetectException

record runtime =
  str_lower :: "ustr \<Rightarrow> ustr"
  detect :: "ustr \<Rightarrow> detect_result"

definition patrones_ruido :: "pattern list" where
  \<comment> \<open>\<open>self.patrones_ruido\<close>, as \<open>es_ruido_tecnico\<close> compiles them, with
      \<open>re.IGNORECASE\<close>: \<open><!-- image -->\<close>, \<open>^\d+$\<close>, \<open>^[IVX]+\.$\<close>, \<open>^#{1,6}\s+$\<close>,
      \<open>^\s*-+\s*$\<close>, \<open>^\s*=+\s*$\<close>, \<open>^\s*\*+\s*$\<close>\<close>
  "patrones_ruido =
     [lit_ci (u ''<!-- image -->''),
      [(False, Bol), many1 py_isdigit, (False, Eol)],
      [(False, Bol),
       many1 (\<lambda>c. c \<in> set (case_variants 73 @ case_variants 86 @ case_variants 88))] @
        lit (u ''.'') @ [(False, Eol)],
      [(False, Bol), (False, Rep (\<lambda>c. c = 35) 1 (Some 6) True), many1 py_isspace, (False, Eol)],
      [(False, Bol), many0 py_isspace, many1 (\<lambda>c. c = 45), many0 py_isspace, (False, Eol)],
      [(False, Bol), many0 py_isspace, many1 (\<lambda>c. c = 61), many0 py_isspace, (False, Eol)],
      [(False, Bol), many0 py_isspace, many1 (\<lambda>c. c = 42), many0 py_isspace, (False, Eol)]]"

definition indicadores_administrativo :: "ustr list" where
  "indicadores_administrativo =
     [u ''evaluaci'' @ [243] @ u ''n'',
      u ''resultados'',
      u ''estimado'',
      u ''padre'',
      u ''madre'',
      u ''familia'',
      u ''ministerio'',
      u ''universidad'',
      u ''departamento'',
      u ''regi'' @ [243] @ u ''n'',
      u ''provincia'',
      u ''nivel'',
      u ''grado'',
      u ''a'' @ [241] @ u ''o'',
      u ''fecha'',
      u ''p'' @ [225] @ u ''gina'',
      [237] @ u ''ndice'',
      u ''cap'' @ [237] @ u ''tulo'',
      u ''anexo'',
      u ''bibliograf'' @ [237] @ u ''a'',
      u ''referencias'',
      u ''tabla'',
      u ''gr'' @ [225] @ u ''fico'',
      u ''pregunta'',
      u ''respuesta'',
      u ''instrucci'' @ [243] @ u ''n'',
      u ''procedimiento'']"

definition es_ruido_tecnico :: "ustr \<Rightarrow> bool" where
  "es_ruido_tecnico texto \<longleftrightarrow> list_ex (\<lambda>patron. re_match patron (strip texto)) patrones_ruido"

definition es_administrativo :: "runtime \<Rightarrow> ustr \<Rightarrow> bool" where
  "es_administrativo rt texto \<longleftrightarrow>
     (let texto_lower = str_lower rt texto
      in list_ex (\<lambda>indicador. contains indicador texto_lower) indicadores_administrativo)"

definition detectar_idioma :: "runtime \<Rightarrow> ustr \<Rightarrow> ustr" where
  "detectar_idioma rt texto =
     (if length (strip texto) < 10 then u ''unknown''
      else (case detect rt texto of
              Code idioma \<Rightarrow> idioma
            | LangDetectException \<Rightarrow> u ''unknown''))"

definition es_probablemente_espanol :: "runtime \<Rightarrow> ustr \<Rightarrow> bool" where
  "es_probablemente_espanol rt texto \<longleftrightarrow>
     (if es_ruido_tecnico texto then True
      else if es_administrativo rt texto then True
      else
        let idioma = detectar_idioma rt texto in
        if idioma = u ''es'' then True
        else if idioma \<in> set [u ''en'', u ''fr'', u ''it'', u ''pt'', u ''de''] then True
        else False)"

subsection \<open>extraer_oraciones_awajun and generar_corpus_monolingue\<close>

definition extraer_oraciones_awajun :: "runtime \<Rightarrow> ustr option \<Rightarrow> ustr list" where
  \<comment> \<open>the argument is what reading the file gives: \<open>None\<close> when \<open>open\<close> or \<open>read\<close>
      raises\<close>
  "extraer_oraciones_awajun rt leido =
     (case leido of
        None \<Rightarrow> []
      | Some contenido \<Rightarrow>
          filter (\<lambda>oracion. \<not> es_probablemente_espanol rt oracion)
            (segmentar_oraciones (limpiar_texto contenido)))"

definition endswith :: "ustr \<Rightarrow> ustr \<Rightarrow> bool" where
  "endswith suf s = startswith (rev suf) (rev s)"

definition glob_md :: "ustr list \<Rightarrow> ustr list" where
  \<comment> \<open>\<open>carpeta.glob("*.md")\<close> over the names of the folder, given in the order the
      operating system enumerates them\<close>
  "glob_md nombres = filter (endswith (u ''.md'')) nombres"

definition glob_txt :: "ustr list \<Rightarrow> ustr list" where
  "glob_txt nombres = filter (endswith (u ''.txt'')) nombres"

definition archivos_texto :: "ustr list \<Rightarrow> ustr list" where
  "archivos_texto nombres = glob_md nombres @ glob_txt nombres"

text \<open>
  A \<open>dict\<close> keeps its keys in insertion order: an association list in that order.
  \<open>dict.fromkeys\<close> stores \<open>None\<close> under every key in turn.
\<close>

definition dict_setitem :: "('k \<times> 'v) list \<Rightarrow> 'k \<Rightarrow> 'v \<Rightarrow> ('k \<times> 'v) list" where
  "dict_setitem d k v =
     (if k \<in> fst ` set d then map (\<lambda>(k', v'). if k' = k then (k', v) else (k', v')) d
      else d @ [(k, v)])"

definition dict_fromkeys :: "'k list \<Rightarrow> ('k \<times> unit) list" where
  "dict_fromkeys ks = foldl (\<lambda>d k. dict_setitem d k ()) [] ks"

definition dict_keys :: "('k \<times> 'v) list \<Rightarrow> 'k list" where
  \<comment> \<open>\<open>list(d)\<close>\<close>
  "dict_keys d = map fst d"

definition todas_oraciones :: "ustr list list \<Rightarrow> ustr list" where
  \<comment> \<open>the loop over \<open>archivos_texto\<close>, on the list of \<open>oraciones\<close> of every file:
      \<open>if oraciones: todas_oraciones.extend(oraciones)\<close>\<close>
  "todas_oraciones por_archivo =
     foldl (\<lambda>todas oraciones. if oraciones \<noteq> [] then todas @ oraciones else todas)
       [] por_archivo"

definition oraciones_unicas :: "ustr list \<Rightarrow> ustr list" where
  \<comment> \<open>\<open>list(dict.fromkeys(todas_oraciones))\<close>\<close>
  "oraciones_unicas todas = dict_keys (dict_fromkeys todas)"

definition generar_corpus_monolingue ::
  "runtime \<Rightarrow> ustr list option \<Rightarrow> (ustr \<Rightarrow> ustr option) \<Rightarrow> ustr list option" where
  \<comment> \<open>the lines of the consolidated corpus, or \<open>None\<close> when the function returns before
      it writes one. \<open>carpeta\<close> is \<open>None\<close> when the folder does not exist, else the names
      in it; \<open>leer\<close> reads a file\<close>
  "generar_corpus_monolingue rt carpeta leer =
     (case carpeta of
        None \<Rightarrow> None
      | Some nombres \<Rightarrow>
          if archivos_texto nombres = [] then None
          else Some (oraciones_unicas (todas_oraciones
                 (map (\<lambda>archivo. extraer_oraciones_awajun rt (leer archivo))
                    (archivos_texto nombres)))))"

definition primeras_apariciones :: "'a list \<Rightarrow> 'a list" where
  \<comment> \<open>in the words of the specification: the sequence with duplicates removed, each
      element kept at its first occurrence\<close>
  "primeras_apariciones xs =
     map (\<lambda>i. xs ! i) (filter (\<lambda>i. xs ! i \<notin> set (take i xs)) [0..<length xs])"

subsection \<open>Runtimes for the examples\<close>

definition ascii_lower :: "ustr \<Rightarrow> ustr" where
  \<comment> \<open>\<open>str.lower\<close> as it is on ASCII text\<close>
  "ascii_lower s = map (\<lambda>c. if 65 \<le> c \<and> c \<le> 90 then c + 32 else c) s"

definition rt_es :: runtime where
  \<comment> \<open>an identifier that answers \<open>es\<close> for every text\<close>
  "rt_es = \<lparr>str_lower = ascii_lower, detect = (\<lambda>texto. Code (u ''es''))\<rparr>"


definition doc_ay :: ustr where
  \<comment> \<open>two documents with the same two sentences, in opposite orders\<close>
  "doc_ay = u ''Atsa'' @ [10] @ u ''Yusa''"

definition doc_ya :: ustr where
  "doc_ya = u ''Yusa'' @ [10] @ u ''Atsa''"

definition leer_ejemplo :: "ustr \<Rightarrow> ustr option" where
  \<comment> \<open>a folder with the files \<open>a.txt\<close>, \<open>b.md\<close> and \<open>c.md\<close>\<close>
  "leer_ejemplo nombre =
     (if nombre = u ''a.txt'' \<or> nombre = u ''c.md'' then Some doc_ay
      else if nombre = u ''b.md'' then Some doc_ya else None)"

subsection \<open>Notions for the statement on table fragments\<close>

text \<open>
  The table branch of \<open>limpiar_oracion\<close> in the words of the claim, without the regular
  expressions and the loop of the code: a trimmed cell passes the filters when it is
  not empty, not made of dashes and whitespace only, and not made of digits only; a
  cell with bullet characters counts as its trimmed bullet items; a text survives when
  it is longer than 3 characters.
\<close>

definition pasa_filtros :: "ustr \<Rightarrow> bool" where
  "pasa_filtros celda \<longleftrightarrow>
     celda \<noteq> [] \<and> \<not> list_all (\<lambda>c. c = 45 \<or> py_isspace c) celda \<and> \<not> list_all py_isdigit celda"

definition items_de_celda :: "ustr \<Rightarrow> ustr list" where
  "items_de_celda celda =
     (if bullet \<in> set celda then map strip (split_on bullet celda) else [celda])"

definition primer_texto_valido :: "ustr \<Rightarrow> ustr" where
  \<comment> \<open>the first surviving text of the cells of a fragment, or the empty string\<close>
  "primer_texto_valido oracion =
     (case find (\<lambda>texto. 3 < length texto)
             (concat (map items_de_celda
                (filter pasa_filtros (map strip (split_on pipe oracion))))) of
        None \<Rightarrow> []
      | Some texto \<Rightarrow> texto)"

definition primera_celda_valida :: "ustr \<Rightarrow> ustr" where
  \<comment> \<open>the first trimmed cell that passes the filters and is longer than 3 characters,
      or the empty string\<close>
  "primera_celda_valida oracion =
     (case find (\<lambda>celda. pasa_filtros celda \<and> 3 < length celda)
             (map strip (split_on pipe oracion)) of
        None \<Rightarrow> []
      | Some celda \<Rightarrow> celda)"

fun sin_suspensivos :: "ustr \<Rightarrow> bool" where
  \<comment> \<open>no run of three or more dots\<close>
  "sin_suspensivos [] = True"
| "sin_suspensivos (c # s) =
     (length (takeWhile (\<lambda>x. x = 46) (c # s)) < 3 \<and> sin_suspensivos s)"

subsection \<open>Notions for the statements on limpiar_texto\<close>

definition marcas :: "nat list" where
  \<comment> \<open>the characters a markup pattern of \<open>limpiar_texto\<close> starts with:
      \<open>#\<close>, \<open>*\<close>, the backquote, \<open>[\<close> and \<open><\<close>\<close>
  "marcas = [35, 42, 96, 91, 60]"

definition sin_marcas :: "ustr \<Rightarrow> bool" where
  "sin_marcas s \<longleftrightarrow> list_all (\<lambda>c. c \<notin> set marcas) s"

fun runs_collapsed :: "(nat \<Rightarrow> bool) \<Rightarrow> nat \<Rightarrow> ustr \<Rightarrow> bool" where
  \<comment> \<open>every character of the class \<open>p\<close> is \<open>r\<close> and is followed by no character of \<open>p\<close>\<close>
  "runs_collapsed p r [] = True"
| "runs_collapsed p r [c] = (p c \<longrightarrow> c = r)"
| "runs_collapsed p r (c # d # s) = ((p c \<longrightarrow> c = r \<and> \<not> p d) \<and> runs_collapsed p r (d # s))"

definition quitar_marcas :: "ustr \<Rightarrow> ustr" where
  \<comment> \<open>the first six statements of \<open>limpiar_texto\<close>: the markup patterns, in their order\<close>
  "quitar_marcas texto =
     re_sub pat_image []
       (re_sub pat_links [Group 1]
         (re_sub pat_code [Group 1]
           (re_sub pat_italic [Group 1]
             (re_sub pat_bold [Group 1]
               (re_sub pat_headers [] texto)))))"


text \<open>
  A text made of markup constructs, piece by piece: plain text, a heading marker (one to
  six \<open>#\<close> and the blanks after them), a bold, an italic and an inline code construct
  with their label, a link with its label and its target, and the image placeholder.
\<close>

datatype pieza =
    Plano ustr
  | Encabezado nat ustr
  | Negrita ustr
  | Cursiva ustr
  | Codigo ustr
  | Enlace ustr ustr
  | Imagen

fun fuente :: "pieza \<Rightarrow> ustr" where
  \<comment> \<open>the piece as it is written in the input\<close>
  "fuente (Plano t) = t"
| "fuente (Encabezado n blancos) = replicate n 35 @ blancos"
| "fuente (Negrita x) = u ''**'' @ x @ u ''**''"
| "fuente (Cursiva x) = u ''*'' @ x @ u ''*''"
| "fuente (Codigo x) = [96] @ x @ [96]"
| "fuente (Enlace x destino) = u ''['' @ x @ u '']('' @ destino @ u '')''"
| "fuente Imagen = u ''<!-- image -->''"

fun etiqueta :: "pieza \<Rightarrow> ustr" where
  \<comment> \<open>what is to remain of the piece: its label; nothing of a heading marker and of an
      image placeholder\<close>
  "etiqueta (Plano t) = t"
| "etiqueta (Encabezado n blancos) = []"
| "etiqueta (Negrita x) = x"
| "etiqueta (Cursiva x) = x"
| "etiqueta (Codigo x) = x"
| "etiqueta (Enlace x destino) = x"
| "etiqueta Imagen = []"

fun paso :: "pieza \<Rightarrow> nat" where
  \<comment> \<open>the statement of \<open>limpiar_texto\<close> whose pattern is that of the piece\<close>
  "paso (Plano t) = 0"
| "paso (Encabezado n blancos) = 1"
| "paso (Negrita x) = 2"
| "paso (Cursiva x) = 3"
| "paso (Codigo x) = 4"
| "paso (Enlace x destino) = 5"
| "paso Imagen = 6"

definition fuente_tras :: "nat \<Rightarrow> pieza \<Rightarrow> ustr" where
  \<comment> \<open>the piece after the first \<open>k\<close> statements of \<open>limpiar_texto\<close>\<close>
  "fuente_tras k p = (if paso p \<le> k then etiqueta p else fuente p)"

fun pieza_ok :: "pieza \<Rightarrow> bool" where
  \<comment> \<open>plain text, labels and targets have no markup character; a label and a target are
      not empty; the label of a link has no \<open>]\<close> and its target no \<open>)\<close>\<close>
  "pieza_ok (Plano t) = sin_marcas t"
| "pieza_ok (Encabezado n blancos) =
     (0 < n \<and> n \<le> 6 \<and> blancos \<noteq> [] \<and> list_all py_isspace blancos)"
| "pieza_ok (Negrita x) = (x \<noteq> [] \<and> sin_marcas x)"
| "pieza_ok (Cursiva x) = (x \<noteq> [] \<and> sin_marcas x)"
| "pieza_ok (Codigo x) = (x \<noteq> [] \<and> sin_marcas x)"
| "pieza_ok (Enlace x destino) =
     (x \<noteq> [] \<and> sin_marcas x \<and> 93 \<notin> set x \<and> destino \<noteq> [] \<and> sin_marcas destino \<and> 41 \<notin> set destino)"
| "pieza_ok Imagen = True"

fun sigue_ok :: "pieza \<Rightarrow> ustr \<Rightarrow> ustr \<Rightarrow> bool" where
  \<comment> \<open>\<open>sigue_ok p r r1\<close>, where \<open>r\<close> is the text after the piece and \<open>r1\<close> that text without
      its heading markers: the blanks of a heading marker end where the marker ends, and
      the closing \<open>*\<close> of an italic construct is followed by no other \<open>*\<close>\<close>
  "sigue_ok (Encabezado n blancos) r r1 = (r = [] \<or> \<not> py_isspace (hd r))"
| "sigue_ok (Cursiva x) r r1 = (r1 = [] \<or> hd r1 \<noteq> 42)"
| "sigue_ok p r r1 = True"

fun documento_ok :: "pieza list \<Rightarrow> bool" where
  "documento_ok [] = True"
| "documento_ok (p # ps) =
     (pieza_ok p
      \<and> sigue_ok p (concat (map fuente ps)) (concat (map (fuente_tras 1) ps))
      \<and> documento_ok ps)"

section \<open>The consolidated corpus\<close>

lemma foldl_extend: 
  "foldl (\<lambda>todas oraciones. if oraciones \<noteq> [] then todas @ oraciones else todas) acc ds = acc @ concat ds"
  by (induction ds arbitrary: acc) auto

lemma todas_oraciones_concat: "todas_oraciones ds = concat ds"
  by (simp add: todas_oraciones_def foldl_extend)

lemma dict_keys_setitem:
  "dict_keys (dict_setitem d k v) = (if k \<in> set (dict_keys d) then dict_keys d else dict_keys d @ [k])"
  by (auto simp: dict_keys_def dict_setitem_def intro!: map_idI split: prod.splits)

lemma dict_fromkeys_snoc: "dict_fromkeys (ks @ [k]) = dict_setitem (dict_fromkeys ks) k ()"
  by (simp add: dict_fromkeys_def)

lemma oraciones_unicas_snoc:
  "oraciones_unicas (xs @ [x]) 
     = (if x \<in> set (oraciones_unicas xs) then oraciones_unicas xs else oraciones_unicas xs @ [x])"
  by (simp add: oraciones_unicas_def dict_fromkeys_snoc dict_keys_setitem)

lemma set_oraciones_unicas: "set (oraciones_unicas xs) = set xs"
proof (induction xs rule: rev_induct)
  case Nil
  show ?case by (simp add: oraciones_unicas_def dict_fromkeys_def dict_keys_def)
next
  case (snoc x xs)
  then show ?case by (auto simp: oraciones_unicas_snoc)
qed

lemma primeras_apariciones_snoc:
  "primeras_apariciones (xs @ [x]) = primeras_apariciones xs @ (if x \<in> set xs then [] else [x])"
proof -
  have f: "filter (\<lambda>i. (xs @ [x]) ! i \<notin> set (take i (xs @ [x]))) [0..<length xs]
         = filter (\<lambda>i. xs ! i \<notin> set (take i xs)) [0..<length xs]"
    by (rule filter_cong) (auto simp: nth_append)
  have m: "map (\<lambda>i. (xs @ [x]) ! i) (filter (\<lambda>i. xs ! i \<notin> set (take i xs)) [0..<length xs])
         = map (\<lambda>i. xs ! i) (filter (\<lambda>i. xs ! i \<notin> set (take i xs)) [0..<length xs])"
    by (rule map_cong) (auto simp: nth_append)
  have "primeras_apariciones (xs @ [x])
      = map (\<lambda>i. (xs @ [x]) ! i) (filter (\<lambda>i. (xs @ [x]) ! i \<notin> set (take i (xs @ [x]))) [0..<length xs])
        @ (if x \<in> set xs then [] else [x])"
    by (simp add: primeras_apariciones_def)
  then show ?thesis
    by (simp only: f m primeras_apariciones_def)
qed

lemma oraciones_unicas_primeras: "oraciones_unicas xs = primeras_apariciones xs"
proof (induction xs rule: rev_induct)
  case Nil
  show ?case by (simp add: oraciones_unicas_def dict_fromkeys_def dict_keys_def primeras_apariciones_def)
next
  case (snoc x xs)
  have "oraciones_unicas (xs @ [x])
       = (if x \<in> set xs then oraciones_unicas xs else oraciones_unicas xs @ [x])"
    by (simp add: oraciones_unicas_snoc set_oraciones_unicas)
  then show ?case
    by (simp add: snoc.IH primeras_apariciones_snoc)
qed

lemma distinct_oraciones_unicas: "distinct (oraciones_unicas xs)"
proof (induction xs rule: rev_induct)
  case Nil
  show ?case by (simp add: oraciones_unicas_def dict_fromkeys_def dict_keys_def)
next
  case (snoc x xs)
  then show ?case by (simp add: oraciones_unicas_snoc)
qed

lemma ejemplo_unicas:
  "oraciones_unicas [u ''a'', u ''b'', u ''b'', u ''c''] = [u ''a'', u ''b'', u ''c'']"
  by (simp add: oraciones_unicas_def dict_fromkeys_def dict_setitem_def dict_keys_def u_def)

text \<open>
  Claim C1. Whatever the lists of accepted sentences of the documents are, the
  consolidated corpus of \<open>generar_corpus_monolingue\<close> is their concatenation with
  duplicates removed by equality of strings, every sentence kept at its first occurrence
  (so the corpus has no repeated line and has exactly the sentences of the documents);
  for \<open>["a","b"]\<close> then \<open>["b","c"]\<close> it is \<open>["a","b","c"]\<close>.
\<close>

theorem corpus_first_occurrence:
  "oraciones_unicas (todas_oraciones por_archivo) = primeras_apariciones (concat por_archivo)
   \<and> distinct (oraciones_unicas (todas_oraciones por_archivo))
   \<and> set (oraciones_unicas (todas_oraciones por_archivo)) = set (concat por_archivo)
   \<and> oraciones_unicas (todas_oraciones [[u ''a'', u ''b''], [u ''b'', u ''c'']]) = [u ''a'', u ''b'', u ''c'']"
  using oraciones_unicas_primeras [of "concat por_archivo"] distinct_oraciones_unicas [of "concat por_archivo"]
    set_oraciones_unicas [of "concat por_archivo"] ejemplo_unicas
  by (simp only: todas_oraciones_concat concat.simps append.simps simp_thms)

theorem corpus_first_occurrence_witness:
  "oraciones_unicas (todas_oraciones [[u ''x'', u ''y''], [], [u ''y'', u ''x'', u ''z'']])
     = [u ''x'', u ''y'', u ''z'']"
  using corpus_first_occurrence [of "[[u ''x'', u ''y''], [], [u ''y'', u ''x'', u ''z'']]"]
  by (simp add: primeras_apariciones_def u_def)

section \<open>The language classifier\<close>

lemma unknown_not_excluded:
  "u ''unknown'' \<noteq> u ''es''"
  "u ''unknown'' \<notin> set [u ''en'', u ''fr'', u ''it'', u ''pt'', u ''de'']"
  by (simp_all add: u_def)

text \<open>
  Claim C3. For a sentence whose stripped length is below 10, \<open>detectar_idioma\<close> yields
  \<open>unknown\<close> whatever the identifier would answer (the decision does not depend on
  \<open>detect\<close>), so \<open>es_probablemente_espanol\<close> holds exactly when the sentence is
  technical noise or has an administrative term; with neither, the sentence is kept.
\<close>

theorem short_sentence_not_identified:
  assumes "length (strip texto) < 10"
  shows "detectar_idioma rt texto = u ''unknown''
       \<and> es_probablemente_espanol (rt\<lparr>detect := d\<rparr>) texto = es_probablemente_espanol rt texto
       \<and> (es_probablemente_espanol rt texto \<longleftrightarrow> es_ruido_tecnico texto \<or> es_administrativo rt texto)"
  using assms unknown_not_excluded
  by (simp add: detectar_idioma_def es_probablemente_espanol_def es_administrativo_def)

lemma isspace_ascii [simp]:
  "py_isspace 32" "py_isspace 10" "py_isspace 9"
  by (simp_all add: py_isspace_def)

lemma strip_Apajui: "strip (u ''Apajui'') = u ''Apajui''"
  by (simp add: strip_def u_def py_isspace_def)

lemma ruido_Apajui: "\<not> es_ruido_tecnico (u ''Apajui'')"
  unfolding es_ruido_tecnico_def strip_Apajui
  by (simp add: patrones_ruido_def re_match_def u_def lit_ci_def lit_def many1_def many0_def counts_def case_variants_def py_isspace_def py_isdigit_def nd_starts_def)

lemma admin_Apajui: "\<not> es_administrativo rt_es (u ''Apajui'')"
  by (simp add: es_administrativo_def rt_es_def ascii_lower_def indicadores_administrativo_def u_def)

theorem short_sentence_not_identified_witness:
  "length (strip (u ''Apajui'')) < 10 \<and> \<not> es_probablemente_espanol rt_es (u ''Apajui'')"
proof -
  have h: "length (strip (u ''Apajui'')) < 10"
    by (simp add: strip_Apajui) (simp add: u_def)
  from short_sentence_not_identified [OF h, of rt_es] ruido_Apajui admin_Apajui h
  show ?thesis by blast
qed

lemma isdigit_ascii: "c < 1632 \<Longrightarrow> py_isdigit c \<longleftrightarrow> 48 \<le> c \<and> c \<le> 57"
  by (auto simp add: py_isdigit_def nd_starts_def)






section \<open>The order of the documents\<close>

lemma startswith_append: "startswith p s \<longleftrightarrow> (\<exists>t. s = p @ t)"
  by (induction p s rule: startswith.induct) auto

lemma endswith_iff: "endswith suf s \<longleftrightarrow> (\<exists>t. s = t @ suf)"
proof -
  have "endswith suf s \<longleftrightarrow> (\<exists>t. rev s = rev suf @ t)"
    by (simp add: endswith_def startswith_append)
  also have "\<dots> \<longleftrightarrow> (\<exists>t. s = t @ suf)"
  proof
    assume "\<exists>t. rev s = rev suf @ t"
    then obtain t where "rev s = rev suf @ t" ..
    then have "s = rev t @ suf" by (metis rev_append rev_rev_ident)
    then show "\<exists>t. s = t @ suf" ..
  next
    assume "\<exists>t. s = t @ suf"
    then show "\<exists>t. rev s = rev suf @ t" by auto
  qed
  finally show ?thesis .
qed

lemma md_not_txt: "endswith (u ''.md'') s \<Longrightarrow> \<not> endswith (u ''.txt'') s"
  by (auto simp: endswith_iff u_def)

lemmas pattern_defs =
  pat_headers_def pat_bold_def pat_italic_def pat_code_def pat_links_def pat_image_def
  pat_newlines_def pat_blanks_def pat_list_dash_def pat_trailing_number_def
  pat_dot_leader_def pat_dots_def pat_divider_def pat_dash_cell_def pat_digits_def
  pat_comma_def pat_spaces_def pat_final_punct_def pat_sentence_end_def
  lit_def lit_ci_def many1_def many0_def group_many1_def counts_def case_variants_def

lemmas eval_defs =
  pattern_defs re_sub_def re_match_def re_search_def re_split_def strip_def u_def
  py_isspace_def isdigit_ascii pipe_def bullet_def


lemma limpiar_texto_ej1: "limpiar_texto doc_ay = doc_ay"
  by (simp add: limpiar_texto_def eval_defs doc_ay_def)
lemma limpiar_texto_ej2: "limpiar_texto doc_ya = doc_ya"
  by (simp add: limpiar_texto_def eval_defs doc_ya_def)


lemma limpiar_oracion_Atsa: "limpiar_oracion (u ''Atsa'') = u ''Atsa''"
  by (simp add: limpiar_oracion_def oracion_previa_def eval_defs)

lemma limpiar_oracion_Yusa: "limpiar_oracion (u ''Yusa'') = u ''Yusa''"
  by (simp add: limpiar_oracion_def oracion_previa_def eval_defs)

lemma normal_linea_Atsa: "normal_linea (u ''Atsa'') = [u ''Atsa'']"
  using limpiar_oracion_Atsa
  by (simp add: normal_linea_def oraciones_validas_def eval_defs)

lemma normal_linea_Yusa: "normal_linea (u ''Yusa'') = [u ''Yusa'']"
  using limpiar_oracion_Yusa
  by (simp add: normal_linea_def oraciones_validas_def eval_defs)

lemma tabla_linea_ej: "tabla_linea (u ''Atsa'') = []" "tabla_linea (u ''Yusa'') = []"
  by (simp_all add: tabla_linea_def pipe_def u_def)

lemma split_ej: "split_on 10 doc_ay = [u ''Atsa'', u ''Yusa'']" "split_on 10 doc_ya = [u ''Yusa'', u ''Atsa'']"
  by (simp_all add: doc_ay_def doc_ya_def u_def)

lemma segmentar_ej: "segmentar_oraciones doc_ay = [u ''Atsa'', u ''Yusa'']"
  "segmentar_oraciones doc_ya = [u ''Yusa'', u ''Atsa'']"
  by (simp_all add: segmentar_oraciones_def procesar_tablas_def split_ej normal_linea_Atsa normal_linea_Yusa tabla_linea_ej)

lemma strip_ej: "strip (u ''Atsa'') = u ''Atsa''" "strip (u ''Yusa'') = u ''Yusa''"
  by (simp_all add: strip_def u_def py_isspace_def)

lemma clasificar_ej: "\<not> es_probablemente_espanol rt_es (u ''Atsa'')" "\<not> es_probablemente_espanol rt_es (u ''Yusa'')"
proof -
  have "\<not> es_ruido_tecnico (u ''Atsa'')" "\<not> es_ruido_tecnico (u ''Yusa'')"
    unfolding es_ruido_tecnico_def strip_ej
    by (simp_all add: patrones_ruido_def eval_defs)
  moreover have "\<not> es_administrativo rt_es (u ''Atsa'')" "\<not> es_administrativo rt_es (u ''Yusa'')"
    by (simp_all add: es_administrativo_def rt_es_def ascii_lower_def indicadores_administrativo_def u_def)
  moreover have "detectar_idioma rt_es (u ''Atsa'') = u ''unknown''" "detectar_idioma rt_es (u ''Yusa'') = u ''unknown''"
    unfolding detectar_idioma_def strip_ej by (simp_all add: u_def)
  ultimately show "\<not> es_probablemente_espanol rt_es (u ''Atsa'')" "\<not> es_probablemente_espanol rt_es (u ''Yusa'')"
    using unknown_not_excluded by (simp_all add: es_probablemente_espanol_def)
qed

lemma extraer_ej: "extraer_oraciones_awajun rt_es (Some doc_ay) = [u ''Atsa'', u ''Yusa'']"
  "extraer_oraciones_awajun rt_es (Some doc_ya) = [u ''Yusa'', u ''Atsa'']"
  by (simp_all add: extraer_oraciones_awajun_def limpiar_texto_ej1 limpiar_texto_ej2 segmentar_ej clasificar_ej)


lemma archivos_ej:
  "archivos_texto [u ''a.txt'', u ''b.md''] = [u ''b.md'', u ''a.txt'']"
  "archivos_texto [u ''b.md'', u ''c.md''] = [u ''b.md'', u ''c.md'']"
  "archivos_texto [u ''c.md'', u ''b.md''] = [u ''c.md'', u ''b.md'']"
  by (simp_all add: archivos_texto_def glob_md_def glob_txt_def endswith_def u_def)

lemma leer_ej: "leer_ejemplo (u ''a.txt'') = Some doc_ay" "leer_ejemplo (u ''c.md'') = Some doc_ay"
   "leer_ejemplo (u ''b.md'') = Some doc_ya"
  by (simp_all add: leer_ejemplo_def u_def)

lemma unicas_ej: "oraciones_unicas [u ''Yusa'', u ''Atsa'', u ''Atsa'', u ''Yusa''] = [u ''Yusa'', u ''Atsa'']"
  "oraciones_unicas [u ''Atsa'', u ''Yusa'', u ''Yusa'', u ''Atsa''] = [u ''Atsa'', u ''Yusa'']"
  by (simp_all add: oraciones_unicas_def dict_fromkeys_def dict_setitem_def dict_keys_def u_def)

lemma generar_ej:
  "generar_corpus_monolingue rt_es (Some [u ''a.txt'', u ''b.md'']) leer_ejemplo = Some [u ''Yusa'', u ''Atsa'']"
  "generar_corpus_monolingue rt_es (Some [u ''b.md'', u ''c.md'']) leer_ejemplo = Some [u ''Yusa'', u ''Atsa'']"
  "generar_corpus_monolingue rt_es (Some [u ''c.md'', u ''b.md'']) leer_ejemplo = Some [u ''Atsa'', u ''Yusa'']"
  by (simp_all add: generar_corpus_monolingue_def archivos_ej leer_ej extraer_ej todas_oraciones_concat unicas_ej)

lemma sorted_ej: "sorted [u ''a.txt'', u ''b.md'']" "\<not> sorted [u ''b.md'', u ''a.txt'']" "sorted [u ''b.md'', u ''c.md'']"
  by (simp_all add: u_def)


lemma filter_md_archivos:
  "filter (endswith (u ''.md'')) (archivos_texto nombres) = filter (endswith (u ''.md'')) nombres"
proof -
  have "filter (endswith (u ''.md'')) (filter (endswith (u ''.txt'')) nombres) = []"
    using md_not_txt by (auto simp: filter_empty_conv)
  then show ?thesis
    by (simp add: archivos_texto_def glob_md_def glob_txt_def)
qed

lemma filter_txt_archivos:
  "filter (endswith (u ''.txt'')) (archivos_texto nombres) = filter (endswith (u ''.txt'')) nombres"
proof -
  have "filter (endswith (u ''.txt'')) (filter (endswith (u ''.md'')) nombres) = []"
    using md_not_txt by (auto simp: filter_empty_conv)
  then show ?thesis
    by (simp add: archivos_texto_def glob_md_def glob_txt_def)
qed

lemma md_before_txt:
  assumes "i < j" "j < length (archivos_texto nombres)"
    and "endswith (u ''.md'') (archivos_texto nombres ! j)"
  shows "endswith (u ''.md'') (archivos_texto nombres ! i)"
proof -
  let ?M = "filter (endswith (u ''.md'')) nombres"
  let ?T = "filter (endswith (u ''.txt'')) nombres"
  have A: "archivos_texto nombres = ?M @ ?T"
    by (simp add: archivos_texto_def glob_md_def glob_txt_def)
  have "j < length ?M"
  proof (rule ccontr)
    assume "\<not> j < length ?M"
    then have "(?M @ ?T) ! j = ?T ! (j - length ?M)" "j - length ?M < length ?T"
      using assms(2) by (auto simp: A nth_append)
    then have "(?M @ ?T) ! j \<in> set ?T" by (metis nth_mem)
    then have "endswith (u ''.txt'') ((?M @ ?T) ! j)" by simp
    with assms(3) md_not_txt show False by (auto simp: A)
  qed
  with assms(1) have "i < length ?M" by simp
  then have "(?M @ ?T) ! i = ?M ! i" "?M ! i \<in> set ?M"
    by (simp_all add: nth_append del: set_filter)
  then have "(?M @ ?T) ! i \<in> set ?M" by simp
  then show ?thesis by (simp add: A)
qed

text \<open>
  Claim C8, amended. \<open>generar_corpus_monolingue\<close> processes every \<open>.md\<close> file of the folder
  before every \<open>.txt\<close> file, the files of one extension in the order the folder
  enumerates them (lexicographic when that enumeration is), and the corpus is the
  first-occurrence sequence over the documents in this order.
\<close>

theorem processing_order:
  "filter (endswith (u ''.md'')) (archivos_texto nombres) = filter (endswith (u ''.md'')) nombres
   \<and> filter (endswith (u ''.txt'')) (archivos_texto nombres) = filter (endswith (u ''.txt'')) nombres
   \<and> set (archivos_texto nombres)
       = {n \<in> set nombres. endswith (u ''.md'') n \<or> endswith (u ''.txt'') n}
   \<and> (\<forall>i j. i < j \<and> j < length (archivos_texto nombres)
          \<and> endswith (u ''.md'') (archivos_texto nombres ! j)
          \<longrightarrow> endswith (u ''.md'') (archivos_texto nombres ! i))
   \<and> (sorted nombres \<longrightarrow> sorted (glob_md nombres) \<and> sorted (glob_txt nombres))
   \<and> generar_corpus_monolingue rt (Some nombres) leer
       = (if archivos_texto nombres = [] then None
          else Some (primeras_apariciones
                 (concat (map (\<lambda>archivo. extraer_oraciones_awajun rt (leer archivo))
                    (archivos_texto nombres)))))"
proof -
  have "set (archivos_texto nombres)
       = {n \<in> set nombres. endswith (u ''.md'') n \<or> endswith (u ''.txt'') n}"
    by (auto simp: archivos_texto_def glob_md_def glob_txt_def)
  moreover have "sorted nombres \<longrightarrow> sorted (glob_md nombres) \<and> sorted (glob_txt nombres)"
    by (simp add: glob_md_def glob_txt_def sorted_wrt_filter)
  moreover have "generar_corpus_monolingue rt (Some nombres) leer
       = (if archivos_texto nombres = [] then None
          else Some (primeras_apariciones
                 (concat (map (\<lambda>archivo. extraer_oraciones_awajun rt (leer archivo))
                    (archivos_texto nombres)))))"
    by (simp add: generar_corpus_monolingue_def todas_oraciones_concat oraciones_unicas_primeras)
  ultimately show ?thesis
    using filter_md_archivos filter_txt_archivos md_before_txt by blast
qed

theorem processing_order_witness:
  "archivos_texto [u ''a.txt'', u ''b.md''] = [u ''b.md'', u ''a.txt'']
   \<and> endswith (u ''.md'') (archivos_texto [u ''a.txt'', u ''b.md''] ! 0)
   \<and> generar_corpus_monolingue rt_es (Some [u ''a.txt'', u ''b.md'']) leer_ejemplo
       = Some (primeras_apariciones [u ''Yusa'', u ''Atsa'', u ''Atsa'', u ''Yusa''])"
  using processing_order [of "[u ''a.txt'', u ''b.md'']" rt_es leer_ejemplo]
  by (simp add: archivos_ej leer_ej extraer_ej) (simp add: endswith_def u_def)

text \<open>
  Claim C8 as stated fails: in a folder with \<open>a.txt\<close> and \<open>b.md\<close> the file \<open>b.md\<close> is
  processed first, although \<open>a.txt\<close> is the smaller name, and the corpus differs from
  the one of the lexicographic order; and two \<open>.md\<close> files are processed in the order
  the folder enumerates them, which changes the corpus.
\<close>

theorem processing_order_counterexample:
  "sorted [u ''a.txt'', u ''b.md'']
   \<and> archivos_texto [u ''a.txt'', u ''b.md''] = [u ''b.md'', u ''a.txt'']
   \<and> \<not> sorted (archivos_texto [u ''a.txt'', u ''b.md''])
   \<and> generar_corpus_monolingue rt_es (Some [u ''a.txt'', u ''b.md'']) leer_ejemplo
       = Some [u ''Yusa'', u ''Atsa'']
   \<and> oraciones_unicas (todas_oraciones
         (map (\<lambda>archivo. extraer_oraciones_awajun rt_es (leer_ejemplo archivo))
            [u ''a.txt'', u ''b.md''])) = [u ''Atsa'', u ''Yusa'']
   \<and> generar_corpus_monolingue rt_es (Some [u ''b.md'', u ''c.md'']) leer_ejemplo
       = Some [u ''Yusa'', u ''Atsa'']
   \<and> generar_corpus_monolingue rt_es (Some [u ''c.md'', u ''b.md'']) leer_ejemplo
       = Some [u ''Atsa'', u ''Yusa'']"
  by (simp add: archivos_ej generar_ej leer_ej extraer_ej todas_oraciones_concat unicas_ej)
     (simp add: u_def)

section \<open>Stripped strings\<close>

lemma dropWhile_hd_fix: "xs \<noteq> [] \<Longrightarrow> \<not> P (hd xs) \<Longrightarrow> dropWhile P xs = xs"
  by (cases xs) auto

lemma strip_cases:
  "dropWhile py_isspace s = [] \<and> strip s = []
   \<or> (\<exists>x ys. dropWhile py_isspace s = x # ys \<and> \<not> py_isspace x
          \<and> strip s = x # rev (dropWhile py_isspace (rev ys)))"
proof (cases "dropWhile py_isspace s")
  case Nil
  have "strip s = []" unfolding strip_def Nil by simp
  with Nil show ?thesis by blast
next
  case (Cons x ys)
  then have x: "\<not> py_isspace x" by (metis hd_dropWhile list.sel(1) list.distinct(1))
  then have "dropWhile py_isspace (rev ys @ [x]) = dropWhile py_isspace (rev ys) @ [x]"
    by (simp add: dropWhile_append3)
  then have "strip s = x # rev (dropWhile py_isspace (rev ys))"
    by (simp add: strip_def Cons)
  with Cons x show ?thesis by blast
qed

lemma strip_hd: "strip s \<noteq> [] \<Longrightarrow> \<not> py_isspace (hd (strip s))"
  using strip_cases [of s] by auto

lemma strip_last: "strip s \<noteq> [] \<Longrightarrow> \<not> py_isspace (last (strip s))"
proof -
  assume a: "strip s \<noteq> []"
  let ?r = "dropWhile py_isspace (rev (dropWhile py_isspace s))"
  from a have "?r \<noteq> []" by (simp add: strip_def)
  then have "\<not> py_isspace (hd ?r)" by (rule hd_dropWhile)
  with \<open>?r \<noteq> []\<close> show ?thesis by (simp add: strip_def last_rev)
qed

lemma strip_fix: "s = [] \<or> (\<not> py_isspace (hd s) \<and> \<not> py_isspace (last s)) \<Longrightarrow> strip s = s"
proof (cases "s = []")
  case True
  then show ?thesis by (simp add: strip_def)
next
  case False
  assume "s = [] \<or> (\<not> py_isspace (hd s) \<and> \<not> py_isspace (last s))"
  with False have h: "\<not> py_isspace (hd s)" and l: "\<not> py_isspace (last s)" by auto
  from False h have 1: "dropWhile py_isspace s = s" by (rule dropWhile_hd_fix)
  from False l have "dropWhile py_isspace (rev s) = rev s"
    by (intro dropWhile_hd_fix) (simp_all add: hd_rev)
  with 1 show ?thesis by (simp add: strip_def)
qed

lemma strip_idem: "strip (strip s) = strip s"
  using strip_hd [of s] strip_last [of s] by (intro strip_fix) blast

lemma strip_length: "length (strip s) \<le> length s"
proof -
  have "length (strip s) \<le> length (dropWhile py_isspace s)"
    using length_dropWhile_le [of py_isspace "rev (dropWhile py_isspace s)"]
    by (simp add: strip_def)
  also have "\<dots> \<le> length s" by (rule length_dropWhile_le)
  finally show ?thesis .
qed

lemma set_strip: "set (strip s) \<subseteq> set s"
proof -
  have "set (strip s) \<subseteq> set (dropWhile py_isspace s)"
    unfolding strip_def set_rev using set_dropWhileD by fastforce
  also have "\<dots> \<subseteq> set s" using set_dropWhileD by fastforce
  finally show ?thesis .
qed

section \<open>The cleaner\<close>

lemma strip_Nil [simp]: "strip [] = []"
  by (simp add: strip_def)

lemma celdas_de_celda_elem:
  assumes "x \<in> set (celdas_de_celda celda)"
  shows "3 < length x" "strip x = x"
  using assms
  by (auto simp: celdas_de_celda_def Let_def strip_idem split: if_splits)

lemma celdas_limpias_elem:
  assumes "x \<in> set (celdas_limpias oracion)"
  shows "3 < length x" "strip x = x"
  using assms celdas_de_celda_elem by (auto simp: celdas_limpias_def)

lemma limpiar_oracion_stripped: "strip (limpiar_oracion oracion) = limpiar_oracion oracion"
proof (cases "pipe \<in> set (oracion_previa oracion)")
  case True
  show ?thesis
  proof (cases "celdas_limpias (oracion_previa oracion)")
    case Nil
    with True show ?thesis by (simp add: limpiar_oracion_def Let_def)
  next
    case (Cons primera otras)
    then have "primera \<in> set (celdas_limpias (oracion_previa oracion))" by simp
    then have "strip primera = primera" by (rule celdas_limpias_elem)
    with True Cons show ?thesis by (simp add: limpiar_oracion_def Let_def)
  qed
next
  case False
  then show ?thesis by (simp add: limpiar_oracion_def Let_def strip_idem)
qed

text \<open>
  Claim C2, amended. For every fragment, the string \<open>limpiar_oracion\<close> returns has no
  leading and no trailing whitespace.
\<close>

theorem cleaner_no_outer_whitespace:
  "strip (limpiar_oracion oracion) = limpiar_oracion oracion
   \<and> (limpiar_oracion oracion \<noteq> [] \<longrightarrow>
        \<not> py_isspace (hd (limpiar_oracion oracion))
        \<and> \<not> py_isspace (last (limpiar_oracion oracion)))"
  using limpiar_oracion_stripped [of oracion] strip_hd [of "limpiar_oracion oracion"]
    strip_last [of "limpiar_oracion oracion"]
  by simp

lemma limpiar_oracion_ej_lista: "limpiar_oracion (u ''  - Yusa .......... 6 '') = u ''Yusa''"
  by (simp add: limpiar_oracion_def oracion_previa_def eval_defs)

theorem cleaner_no_outer_whitespace_witness:
  "limpiar_oracion (u ''  - Yusa .......... 6 '') = u ''Yusa''
   \<and> \<not> py_isspace (hd (limpiar_oracion (u ''  - Yusa .......... 6 '')))
   \<and> \<not> py_isspace (last (limpiar_oracion (u ''  - Yusa .......... 6 '')))"
  using cleaner_no_outer_whitespace [of "u ''  - Yusa .......... 6 ''"]
  by (simp add: limpiar_oracion_ej_lista) (simp add: u_def)

text \<open>
  Claim C2 as stated fails: every marker is removed once and in a fixed order, so a
  second list dash, a second bullet and a second trailing number stay in the result.
\<close>

theorem cleaner_markers_counterexample:
  "limpiar_oracion (u ''- - Yusa'') = u ''- Yusa''
   \<and> limpiar_oracion ([bullet, bullet] @ u ''Yusa'') = [bullet] @ u ''Yusa''
   \<and> limpiar_oracion (u ''Yusa 12 34'') = u ''Yusa 12''"
  by (simp add: limpiar_oracion_def oracion_previa_def eval_defs)

section \<open>The segmenter\<close>

lemma counts_greedy: "lo \<le> n \<Longrightarrow> counts True lo None n = n # rev [lo..<n]"
  by (simp add: counts_def)

lemma match_whole:
  assumes "s \<noteq> []" "\<forall>c\<in>set s. p c"
  shows "match_items [(a, Bol), many1 p, (b, Eol)] 0 s = Some ([], [])"
proof -
  have t: "takeWhile p s = s" using assms(2) by (simp add: takeWhile_eq_all_conv)
  have l: "Suc 0 \<le> length s" using assms(1) by (cases s) auto
  show ?thesis
    by (simp add: many1_def t counts_greedy [OF l])
qed

lemma split_on_nonempty: "split_on sep s \<noteq> []"
  by (induction s) (auto simp: neq_Nil_conv elim: push_char.elims)

lemma split_on_notin: "sep \<notin> set s \<Longrightarrow> split_on sep s = [s]"
  by (induction s) auto

lemma push_char_append: "ps \<noteq> [] \<Longrightarrow> push_char c (ps @ qs) = push_char c ps @ qs"
  by (cases ps) auto

lemma split_on_append: "split_on sep (a @ sep # b) = split_on sep a @ split_on sep b"
  by (induction a) (auto simp: push_char_append split_on_nonempty)

lemma divider_tabla_linea:
  assumes "pipe \<in> set linea" "\<forall>c\<in>set linea. py_isspace c \<or> c = pipe \<or> c = 45"
  shows "tabla_linea linea = []"
proof -
  from assms(1) have "linea \<noteq> []" by auto
  with assms(2) have "re_match pat_divider linea"
    unfolding re_match_def pat_divider_def pipe_def 
    by (subst match_whole) (auto simp: pipe_def)
  with assms(1) show ?thesis by (simp add: tabla_linea_def)
qed

lemma segmentar_lineas:
  "segmentar_oraciones texto =
     concat (map tabla_linea (split_on 10 texto)) @ concat (map normal_linea (split_on 10 texto))"
  by (simp add: segmentar_oraciones_def procesar_tablas_def)

text \<open>
  Claim C5, amended. A line (a text without line break) that has at least one pipe
  character and otherwise only dashes, pipes and whitespace gives no unit: neither in
  the table pass nor in the pass over the other lines, alone or among the lines of a
  text.
\<close>

theorem divider_line_no_units:
  assumes "pipe \<in> set linea"
    and "\<forall>c\<in>set linea. py_isspace c \<or> c = pipe \<or> c = 45"
    and "10 \<notin> set linea"
  shows "tabla_linea linea = [] \<and> normal_linea linea = []
       \<and> segmentar_oraciones linea = []
       \<and> segmentar_oraciones (antes @ [10] @ linea @ [10] @ despues)
           = segmentar_oraciones (antes @ [10] @ despues)
       \<and> segmentar_oraciones (linea @ [10] @ despues) = segmentar_oraciones despues
       \<and> segmentar_oraciones (antes @ [10] @ linea) = segmentar_oraciones antes"
proof -
  have t: "tabla_linea linea = []" using assms(1,2) by (rule divider_tabla_linea)
  have n: "normal_linea linea = []" using assms(1) by (simp add: normal_linea_def)
  have s: "split_on 10 linea = [linea]" using assms(3) by (rule split_on_notin)
  have s1: "split_on 10 (linea @ 10 # despues) = linea # split_on 10 despues" for despues
    by (simp add: split_on_append s)
  have s2: "split_on 10 (antes @ 10 # linea) = split_on 10 antes @ [linea]" for antes
    by (simp add: split_on_append s)
  show ?thesis
    by (simp add: segmentar_lineas split_on_append s s1 s2 t n)
qed

theorem divider_line_no_units_witness:
  "segmentar_oraciones (u ''|---|---|'') = []
   \<and> segmentar_oraciones (u ''Yusa'' @ [10] @ u ''| - | -- |'' @ [10] @ u ''Atsa'')
      = segmentar_oraciones (u ''Yusa'' @ [10] @ u ''Atsa'')"
  using divider_line_no_units [of "u ''|---|---|''"]
    divider_line_no_units [of "u ''| - | -- |''" "u ''Yusa''" "u ''Atsa''"]
  by (simp add: u_def pipe_def py_isspace_def)

text \<open>
  Claim C5 as stated fails: a line of dashes and blanks without a pipe is not a table
  line. The pass over the other lines keeps it as a unit, and of the line \<open>- - -\<close> the
  unit \<open>- -\<close> is not even technical noise for the classifier.
\<close>

theorem divider_line_counterexample:
  "list_all (\<lambda>c. py_isspace c \<or> c = pipe \<or> c = 45) (u ''---'')
   \<and> 10 \<notin> set (u ''---'')
   \<and> segmentar_oraciones (u ''---'') = [u ''---'']
   \<and> list_all (\<lambda>c. py_isspace c \<or> c = pipe \<or> c = 45) (u ''- - -'')
   \<and> 10 \<notin> set (u ''- - -'')
   \<and> segmentar_oraciones (u ''- - -'') = [u ''- -'']
   \<and> \<not> es_ruido_tecnico (u ''- -'')"
proof -
  have 1: "limpiar_oracion (u ''---'') = u ''---''" "limpiar_oracion (u ''- - -'') = u ''- -''"
    by (simp_all add: limpiar_oracion_def oracion_previa_def eval_defs)
  have 2: "normal_linea (u ''---'') = [u ''---'']" "normal_linea (u ''- - -'') = [u ''- -'']"
    using 1 by (simp_all add: normal_linea_def oraciones_validas_def eval_defs)
  have 3: "tabla_linea (u ''---'') = []" "tabla_linea (u ''- - -'') = []"
    by (simp_all add: tabla_linea_def pipe_def u_def)
  have 4: "split_on 10 (u ''---'') = [u ''---'']" "split_on 10 (u ''- - -'') = [u ''- - -'']"
    by (simp_all add: u_def)
  have 5: "\<not> es_ruido_tecnico (u ''- -'')"
    by (simp add: es_ruido_tecnico_def patrones_ruido_def eval_defs)
  have 6: "list_all (\<lambda>c. py_isspace c \<or> c = pipe \<or> c = 45) (u ''---'')"
    "list_all (\<lambda>c. py_isspace c \<or> c = pipe \<or> c = 45) (u ''- - -'')"
    "10 \<notin> set (u ''---'')" "10 \<notin> set (u ''- - -'')"
    by (simp_all add: u_def py_isspace_def)
  show ?thesis
    by (simp add: segmentar_lineas 2 3 4 5 6)
qed

section \<open>Accepted sentences\<close>

lemma isdigit_ranges:
  "py_isdigit c \<Longrightarrow>
     (48 \<le> c \<and> c \<le> 57) \<or> (1632 \<le> c \<and> c \<le> 4249) \<or> (6112 \<le> c \<and> c \<le> 7257) \<or> 42528 \<le> c"
  unfolding py_isdigit_def nd_starts_def
  by (simp only: list_ex_Cons_iff list_ex_Nil_iff simp_thms) (elim disjE, linarith+)

lemma digit_not_space: "py_isdigit c \<Longrightarrow> \<not> py_isspace c"
  using isdigit_ranges [of c] unfolding py_isspace_def by linarith


lemma all_digits_noise:
  assumes "x \<noteq> []" "\<forall>c\<in>set x. py_isdigit c"
  shows "es_ruido_tecnico x"
proof -
  from assms have "\<not> py_isspace (hd x)" "\<not> py_isspace (last x)"
    by (simp_all add: digit_not_space)
  then have "strip x = x" by (intro strip_fix) simp
  moreover have "re_match [(False, Bol), many1 py_isdigit, (False, Eol)] x"
    unfolding re_match_def using match_whole [OF assms, of False False] by simp
  ultimately show ?thesis
    by (simp add: es_ruido_tecnico_def patrones_ruido_def)
qed

lemma tabla_celda_elem:
  assumes "x \<in> set (tabla_celda celda)"
  shows "3 \<le> length x \<and> strip x = x"
  using assms
  by (auto simp: tabla_celda_def Let_def limpiar_oracion_stripped split: if_splits)

lemma normal_linea_elem:
  assumes "x \<in> set (normal_linea linea)"
  shows "3 \<le> length x \<and> strip x = x"
  using assms
  by (auto simp: normal_linea_def oraciones_validas_def Let_def limpiar_oracion_stripped
      split: if_splits)

lemma segmentar_elem:
  assumes "x \<in> set (segmentar_oraciones texto)"
  shows "3 \<le> length x \<and> strip x = x"
  using assms tabla_celda_elem normal_linea_elem
  by (auto simp: segmentar_lineas tabla_linea_def split: if_splits)

text \<open>
  Claim C6, amended. Every sentence \<open>extraer_oraciones_awajun\<close> returns has at least 3
  characters, has no whitespace at its ends (so it is not made of whitespace), is not
  made of digits only, and is no technical noise.
\<close>

theorem accepted_sentence_invariant:
  assumes "x \<in> set (extraer_oraciones_awajun rt leido)"
  shows "3 \<le> length x \<and> x \<noteq> []
       \<and> \<not> py_isspace (hd x) \<and> \<not> py_isspace (last x)
       \<and> \<not> list_all py_isspace x \<and> \<not> list_all py_isdigit x
       \<and> \<not> es_ruido_tecnico x"
proof -
  from assms obtain contenido where
      x: "x \<in> set (segmentar_oraciones (limpiar_texto contenido))"
      and e: "\<not> es_probablemente_espanol rt x"
    by (auto simp: extraer_oraciones_awajun_def split: option.splits)
  from x have l: "3 \<le> length x" and s: "strip x = x"
    using segmentar_elem by blast+
  from l have n: "x \<noteq> []" by auto
  from s n have h: "\<not> py_isspace (hd x)" and t: "\<not> py_isspace (last x)"
    using strip_hd [of x] strip_last [of x] by simp_all
  from n h have w: "\<not> list_all py_isspace x" by (cases x) auto
  from e have r: "\<not> es_ruido_tecnico x" by (auto simp: es_probablemente_espanol_def)
  with n all_digits_noise [of x] have d: "\<not> list_all py_isdigit x"
    by (auto simp: list_all_iff)
  from l n h t w d r show ?thesis by blast
qed

lemma limpiar_texto_comas: "limpiar_texto (u '',,,,'') = u '',,,,''"
  by (simp add: limpiar_texto_def eval_defs)

lemma limpiar_texto_1234: "limpiar_texto (u ''1 2 3 4'') = u ''1 2 3 4''"
  by (simp add: limpiar_texto_def eval_defs)

lemma segmentar_comas: "segmentar_oraciones (u '',,,,'') = [u '',,,,'']"
proof -
  have "limpiar_oracion (u '',,,,'') = u '',,,,''"
    by (simp add: limpiar_oracion_def oracion_previa_def eval_defs)
  then have "normal_linea (u '',,,,'') = [u '',,,,'']"
    by (simp add: normal_linea_def oraciones_validas_def eval_defs)
  moreover have "tabla_linea (u '',,,,'') = []"
    by (simp add: tabla_linea_def pipe_def u_def)
  moreover have "split_on 10 (u '',,,,'') = [u '',,,,'']"
    by (simp add: u_def)
  ultimately show ?thesis by (simp add: segmentar_lineas)
qed

lemma segmentar_1234: "segmentar_oraciones (u ''1 2 3 4'') = [u ''1 2 3'']"
proof -
  have "limpiar_oracion (u ''1 2 3 4'') = u ''1 2 3''"
    by (simp add: limpiar_oracion_def oracion_previa_def eval_defs)
  then have "normal_linea (u ''1 2 3 4'') = [u ''1 2 3'']"
    by (simp add: normal_linea_def oraciones_validas_def eval_defs)
  moreover have "tabla_linea (u ''1 2 3 4'') = []"
    by (simp add: tabla_linea_def pipe_def u_def)
  moreover have "split_on 10 (u ''1 2 3 4'') = [u ''1 2 3 4'']"
    by (simp add: u_def)
  ultimately show ?thesis by (simp add: segmentar_lineas)
qed

lemma clasificar_corta:
  assumes "strip x = x" "length x < 10"
    and "list_all (\<lambda>patron. \<not> re_match patron x) patrones_ruido"
    and "list_all (\<lambda>indicador. \<not> contains indicador (ascii_lower x)) indicadores_administrativo"
  shows "\<not> es_probablemente_espanol rt_es x"
proof -
  from assms(1,3) have "\<not> es_ruido_tecnico x"
    by (simp add: es_ruido_tecnico_def list_all_iff list_ex_iff)
  moreover from assms(4) have "\<not> es_administrativo rt_es x"
    by (simp add: es_administrativo_def rt_es_def list_all_iff list_ex_iff)
  moreover from assms(1,2) have "detectar_idioma rt_es x = u ''unknown''"
    by (simp add: detectar_idioma_def)
  ultimately show ?thesis
    using unknown_not_excluded by (simp add: es_probablemente_espanol_def)
qed

lemma clasificar_comas: "\<not> es_probablemente_espanol rt_es (u '',,,,'')"
  by (rule clasificar_corta)
     (simp_all add: patrones_ruido_def indicadores_administrativo_def ascii_lower_def eval_defs)

lemma clasificar_123: "\<not> es_probablemente_espanol rt_es (u ''1 2 3'')"
  by (rule clasificar_corta)
     (simp_all add: patrones_ruido_def indicadores_administrativo_def ascii_lower_def eval_defs)

theorem accepted_sentence_invariant_witness:
  "extraer_oraciones_awajun rt_es (Some (u ''1 2 3 4'')) = [u ''1 2 3'']
   \<and> 3 \<le> length (u ''1 2 3'') \<and> \<not> list_all py_isdigit (u ''1 2 3'')
   \<and> \<not> es_ruido_tecnico (u ''1 2 3'')"
proof -
  have e: "extraer_oraciones_awajun rt_es (Some (u ''1 2 3 4'')) = [u ''1 2 3'']"
    by (simp add: extraer_oraciones_awajun_def limpiar_texto_1234 segmentar_1234 clasificar_123)
  then have "u ''1 2 3'' \<in> set (extraer_oraciones_awajun rt_es (Some (u ''1 2 3 4'')))"
    by simp
  from accepted_sentence_invariant [OF this] e show ?thesis by blast
qed

text \<open>
  Claim C6 as stated fails: a line of commas is accepted, a sentence of punctuation
  only, and so is a line of digits separated by blanks.
\<close>

theorem accepted_sentence_counterexample:
  "extraer_oraciones_awajun rt_es (Some (u '',,,,'')) = [u '',,,,'']
   \<and> extraer_oraciones_awajun rt_es (Some (u ''1 2 3 4'')) = [u ''1 2 3'']"
  by (simp add: extraer_oraciones_awajun_def limpiar_texto_comas segmentar_comas clasificar_comas
      limpiar_texto_1234 segmentar_1234 clasificar_123)

section \<open>Matching and substitution\<close>

lemma counts_greedy_max:
  assumes "lo \<le> m" "m = (case hi of None \<Rightarrow> n | Some h \<Rightarrow> min h n)"
  shows "counts True lo hi n = m # rev [lo..<m]"
  using assms by (simp add: counts_def Let_def)

lemma counts_none: "0 < lo \<Longrightarrow> counts g lo hi 0 = []"
  by (simp add: counts_def Let_def split: option.splits)

lemma match_first_absent:
  assumes "0 < lo" "s = [] \<or> \<not> p (hd s)"
  shows "match_items ((cap, Rep p lo hi g) # r) pos s = None"
proof -
  from assms(2) have "takeWhile p s = []" by (cases s) auto
  then show ?thesis by (simp add: counts_none [OF assms(1)])
qed

lemma match_char:
  "match_items ((False, Rep (\<lambda>c. c = a) (Suc 0) (Some (Suc 0)) True) # r) pos (a # s)
     = match_items r (Suc pos) s"
proof -
  have "counts True (Suc 0) (Some (Suc 0)) (length (takeWhile (\<lambda>c. c = a) (a # s))) = [Suc 0]"
    by (simp add: counts_def)
  then show ?thesis
    by (simp split: option.splits)
qed

lemma match_char_absent:
  "s = [] \<or> hd s \<noteq> a \<Longrightarrow>
     match_items ((False, Rep (\<lambda>c. c = a) (Suc 0) (Some (Suc 0)) True) # r) pos s = None"
  by (rule match_first_absent) auto

lemma match_greedy_run:
  assumes "takeWhile p s = x" "lo \<le> length x"
    and "match_items r (pos + length x) (drop (length x) s) = Some (gs, t)"
  shows "match_items ((cap, Rep p lo None True) # r) pos s
           = Some ((if cap then [x] else []) @ gs, t)"
proof -
  have c: "counts True lo None (length x) = length x # rev [lo..<length x]"
    using assms(2) by (simp add: counts_greedy_max)
  have "take (length x) s = x"
    using assms(1) by (metis takeWhile_eq_take)
  then show ?thesis
    by (simp add: assms(1,3) c)
qed

lemma re_sub_step_none:
  "match_items pat pos (c # s) = None \<Longrightarrow>
     re_sub_at pat repl pos (c # s) = c # re_sub_at pat repl (Suc pos) s"
  by simp

lemma re_sub_skip:
  assumes "0 < lo" "\<forall>c\<in>set a. \<not> p c"
  shows "re_sub_at ((cap, Rep p lo hi g) # r) repl pos (a @ b)
           = a @ re_sub_at ((cap, Rep p lo hi g) # r) repl (pos + length a) b"
  using assms(2)
proof (induction a arbitrary: pos)
  case Nil
  show ?case by simp
next
  case (Cons c a)
  have "match_items ((cap, Rep p lo hi g) # r) pos (c # a @ b) = None"
    using Cons.prems assms(1) by (intro match_first_absent) auto
  then have "re_sub_at ((cap, Rep p lo hi g) # r) repl pos (c # a @ b)
           = c # re_sub_at ((cap, Rep p lo hi g) # r) repl (Suc pos) (a @ b)"
    by (rule re_sub_step_none)
  with Cons show ?case by simp
qed

lemma re_sub_none:
  assumes "0 < lo" "\<forall>c\<in>set s. \<not> p c"
  shows "re_sub_at ((cap, Rep p lo hi g) # r) repl pos s = s"
proof -
  have "match_items ((cap, Rep p lo hi g) # r) (pos + length s) [] = None"
    using assms(1) by (intro match_first_absent) auto
  then have "re_sub_at ((cap, Rep p lo hi g) # r) repl (pos + length s) [] = []"
    by simp
  with re_sub_skip [OF assms, of cap hi g r repl pos "[]"] show ?thesis by simp
qed

section \<open>Collapsed runs\<close>

lemma match_many1:
  "match_items [many1 p] pos s
     = (if s \<noteq> [] \<and> p (hd s) then Some ([], dropWhile p s) else None)"
proof (cases "s \<noteq> [] \<and> p (hd s)")
  case True
  then have l: "Suc 0 \<le> length (takeWhile p s)" by (cases s) auto
  have d: "drop (length (takeWhile p s)) s = dropWhile p s"
    by (simp add: dropWhile_eq_drop)
  have "match_items [(False, Rep p (Suc 0) None True)] pos s = Some ([] @ [], dropWhile p s)"
    using match_greedy_run [OF refl l, of "[]" pos "[]" "dropWhile p s" False]
    by (simp add: d)
  with True show ?thesis by (simp add: many1_def)
next
  case False
  then have "match_items [(False, Rep p (Suc 0) None True)] pos s = None"
    by (intro match_first_absent) auto
  with False show ?thesis by (simp add: many1_def)
qed

lemma re_sub_many1_Nil [simp]: "re_sub_at [many1 p] repl pos [] = []"
  by (simp add: match_many1)

lemma re_sub_many1_Cons:
  "re_sub_at [many1 p] repl pos (c # s)
     = (if p c then expand repl [] @ re_sub_at [many1 p] repl (pos + (Suc (length s) - length (dropWhile p s))) (dropWhile p s)
        else c # re_sub_at [many1 p] repl (Suc pos) s)"
proof -
  have "length (dropWhile p s) < Suc (length s)"
    using length_dropWhile_le [of p s] by simp
  then show ?thesis
    by (simp add: match_many1)
qed

lemma runs_collapsed_skip: "\<not> p c \<Longrightarrow> runs_collapsed p r (c # s) = runs_collapsed p r s"
  by (cases s) auto

lemma runs_collapsed_tl: "runs_collapsed p r (c # s) \<Longrightarrow> runs_collapsed p r s"
  by (cases s) auto

lemma runs_collapsed_hd:
  "runs_collapsed p r (c # s) \<Longrightarrow> p c \<Longrightarrow> c = r \<and> (s = [] \<or> \<not> p (hd s))"
  by (cases s) auto

lemma runs_collapsed_Cons_iff:
  "runs_collapsed p r (c # s)
     \<longleftrightarrow> (p c \<longrightarrow> c = r \<and> (s = [] \<or> \<not> p (hd s))) \<and> runs_collapsed p r s"
  by (cases s) auto

lemma runs_collapsed_drop: "runs_collapsed p r s \<Longrightarrow> runs_collapsed p r (drop n s)"
proof (induction n arbitrary: s)
  case 0
  then show ?case by simp
next
  case (Suc n)
  then show ?case by (cases s) (auto dest: runs_collapsed_tl)
qed

lemma runs_collapsed_dropWhile: "runs_collapsed p r s \<Longrightarrow> runs_collapsed p r (dropWhile q s)"
  by (simp add: dropWhile_eq_drop runs_collapsed_drop)

lemma runs_collapsed_append_left: "runs_collapsed p r (xs @ ys) \<Longrightarrow> runs_collapsed p r xs"
proof (induction xs)
  case Nil
  show ?case by simp
next
  case (Cons c xs)
  then have t: "runs_collapsed p r xs" by (auto dest: runs_collapsed_tl)
  show ?case
  proof (cases "p c")
    case False
    with t show ?thesis by (simp add: runs_collapsed_skip)
  next
    case True
    with Cons.prems have "c = r \<and> (xs @ ys = [] \<or> \<not> p (hd (xs @ ys)))"
      using runs_collapsed_hd [of p r c "xs @ ys"] by simp
    then have "c = r \<and> (xs = [] \<or> \<not> p (hd xs))" by (cases xs) auto
    with t show ?thesis by (simp add: runs_collapsed_Cons_iff)
  qed
qed

lemma strip_decomp: "\<exists>a b. s = a @ strip s @ b"
proof -
  let ?t = "dropWhile py_isspace s"
  have 1: "s = takeWhile py_isspace s @ ?t" by simp
  have "rev (strip s @ rev (takeWhile py_isspace (rev ?t))) = rev ?t"
    by (simp add: strip_def)
  then have "strip s @ rev (takeWhile py_isspace (rev ?t)) = ?t"
    by (rule rev_is_rev_conv [THEN iffD1])
  then have 2: "?t = strip s @ rev (takeWhile py_isspace (rev ?t))"
    by (rule sym)
  from 1 2 have "s = takeWhile py_isspace s @ strip s @ rev (takeWhile py_isspace (rev ?t))"
    by simp
  then show ?thesis by blast
qed

lemma runs_collapsed_strip: "runs_collapsed p r s \<Longrightarrow> runs_collapsed p r (strip s)"
proof -
  assume a: "runs_collapsed p r s"
  obtain a b where s: "s = a @ strip s @ b" using strip_decomp by blast
  from a have "runs_collapsed p r (drop (length a) s)" by (rule runs_collapsed_drop)
  with s have "runs_collapsed p r (strip s @ b)" by (metis append_eq_conv_conj)
  then show ?thesis by (rule runs_collapsed_append_left)
qed

lemma re_sub_many1_fix:
  "runs_collapsed p r s \<Longrightarrow> re_sub_at [many1 p] [Lit [r]] pos s = s"
proof (induction s arbitrary: pos)
  case Nil
  show ?case by (simp add: match_many1)
next
  case (Cons c s)
  from Cons.prems have t: "runs_collapsed p r s" by (rule runs_collapsed_tl)
  show ?case
  proof (cases "p c")
    case False
    with Cons.IH [OF t] show ?thesis by (simp add: re_sub_many1_Cons del: re_sub_at.simps)
  next
    case True
    with Cons.prems have c: "c = r" and h: "s = [] \<or> \<not> p (hd s)"
      using runs_collapsed_hd [of p r c s] by auto
    from h have "dropWhile p s = s" by (cases s) auto
    with True c Cons.IH [OF t] show ?thesis by (simp add: re_sub_many1_Cons del: re_sub_at.simps)
  qed
qed

lemma re_sub_many1_hd_class:
  "t = [] \<or> \<not> p (hd t) \<Longrightarrow>
     re_sub_at [many1 p] [Lit [r]] pos t = [] \<or> \<not> p (hd (re_sub_at [many1 p] [Lit [r]] pos t))"
  by (cases t) (simp_all add: re_sub_many1_Cons del: re_sub_at.simps)

lemma re_sub_many1_hd_other:
  "t = [] \<or> hd t \<noteq> a \<Longrightarrow> r \<noteq> a \<Longrightarrow>
     re_sub_at [many1 p] [Lit [r]] pos t = [] \<or> hd (re_sub_at [many1 p] [Lit [r]] pos t) \<noteq> a"
  by (cases t) (simp_all add: re_sub_many1_Cons del: re_sub_at.simps)

lemma re_sub_many1_collapsed:
  assumes "p r"
  shows "runs_collapsed p r (re_sub_at [many1 p] [Lit [r]] pos s)"
proof (induction s arbitrary: pos rule: length_induct)
  case (1 s)
  show ?case
  proof (cases s)
    case Nil
    then show ?thesis by (simp add: match_many1)
  next
    case (Cons c s')
    show ?thesis
    proof (cases "p c")
      case False
      have "runs_collapsed p r (re_sub_at [many1 p] [Lit [r]] (Suc pos) s')"
        using 1 Cons by simp
      with False show ?thesis by (simp add: Cons re_sub_many1_Cons runs_collapsed_skip del: re_sub_at.simps)
    next
      case True
      let ?t = "dropWhile p s'"
      let ?q = "pos + (Suc (length s') - length ?t)"
      have "length ?t < length s" using length_dropWhile_le [of p s'] by (simp add: Cons)
      then have ih: "runs_collapsed p r (re_sub_at [many1 p] [Lit [r]] ?q ?t)"
        using 1 by simp
      have "?t = [] \<or> \<not> p (hd ?t)" by (metis hd_dropWhile)
      then have "re_sub_at [many1 p] [Lit [r]] ?q ?t = []
                 \<or> \<not> p (hd (re_sub_at [many1 p] [Lit [r]] ?q ?t))"
        by (rule re_sub_many1_hd_class)
      with ih have "runs_collapsed p r (r # re_sub_at [many1 p] [Lit [r]] ?q ?t)"
        by (simp add: runs_collapsed_Cons_iff)
      with True show ?thesis by (simp add: Cons re_sub_many1_Cons del: re_sub_at.simps)
    qed
  qed
qed

lemma newlines_survive_blanks:
  assumes "\<not> b 10" "r \<noteq> 10"
  shows "runs_collapsed (\<lambda>c. c = 10) 10 s \<Longrightarrow>
     runs_collapsed (\<lambda>c. c = 10) 10 (re_sub_at [many1 b] [Lit [r]] pos s)"
proof (induction s arbitrary: pos rule: length_induct)
  case (1 s)
  show ?case
  proof (cases s)
    case Nil
    then show ?thesis by (simp add: match_many1)
  next
    case (Cons c s')
    from 1(2) have t: "runs_collapsed (\<lambda>c. c = 10) 10 s'"
      unfolding Cons by (rule runs_collapsed_tl)
    show ?thesis
    proof (cases "b c")
      case True
      let ?t = "dropWhile b s'"
      let ?q = "pos + (Suc (length s') - length ?t)"
      have "length ?t < length s" using length_dropWhile_le [of b s'] by (simp add: Cons)
      moreover from t have "runs_collapsed (\<lambda>c. c = 10) 10 ?t"
        by (rule runs_collapsed_dropWhile)
      ultimately have "runs_collapsed (\<lambda>c. c = 10) 10 (re_sub_at [many1 b] [Lit [r]] ?q ?t)"
        using 1(1) by simp
      with True assms(2) show ?thesis
        by (simp add: Cons re_sub_many1_Cons runs_collapsed_skip del: re_sub_at.simps)
    next
      case False
      have ih: "runs_collapsed (\<lambda>c. c = 10) 10 (re_sub_at [many1 b] [Lit [r]] (Suc pos) s')"
        using 1(1) t by (simp add: Cons)
      have "re_sub_at [many1 b] [Lit [r]] (Suc pos) s' = []
                   \<or> hd (re_sub_at [many1 b] [Lit [r]] (Suc pos) s') \<noteq> 10" if "c = 10"
      proof -
        from that 1(2) have "s' = [] \<or> hd s' \<noteq> 10"
          using runs_collapsed_hd [of "\<lambda>c. c = 10" 10 c s'] by (simp add: Cons)
        then show ?thesis using assms(2) by (rule re_sub_many1_hd_other)
      qed
      with ih False show ?thesis
        by (auto simp add: Cons re_sub_many1_Cons runs_collapsed_Cons_iff simp del: re_sub_at.simps)
    qed
  qed
qed

section \<open>The markup normalizer\<close>

lemma sin_marcas_iff:
  "sin_marcas s \<longleftrightarrow> (\<forall>c\<in>set s. c \<noteq> 35 \<and> c \<noteq> 42 \<and> c \<noteq> 96 \<and> c \<noteq> 91 \<and> c \<noteq> 60)"
  by (auto simp: sin_marcas_def marcas_def list_all_iff)

lemma sub_headers_none: "\<forall>c\<in>set s. c \<noteq> 35 \<Longrightarrow> re_sub pat_headers repl s = s"
  unfolding re_sub_def pat_headers_def by (rule re_sub_none) auto

lemma sub_bold_none: "\<forall>c\<in>set s. c \<noteq> 42 \<Longrightarrow> re_sub pat_bold repl s = s"
  by (simp add: re_sub_def pat_bold_def lit_def u_def re_sub_none del: re_sub_at.simps)

lemma sub_italic_none: "\<forall>c\<in>set s. c \<noteq> 42 \<Longrightarrow> re_sub pat_italic repl s = s"
  by (simp add: re_sub_def pat_italic_def lit_def u_def re_sub_none del: re_sub_at.simps)

lemma sub_code_none: "\<forall>c\<in>set s. c \<noteq> 96 \<Longrightarrow> re_sub pat_code repl s = s"
  by (simp add: re_sub_def pat_code_def lit_def re_sub_none del: re_sub_at.simps)

lemma sub_links_none: "\<forall>c\<in>set s. c \<noteq> 91 \<Longrightarrow> re_sub pat_links repl s = s"
  by (simp add: re_sub_def pat_links_def lit_def u_def re_sub_none del: re_sub_at.simps)

lemma sub_image_none: "\<forall>c\<in>set s. c \<noteq> 60 \<Longrightarrow> re_sub pat_image repl s = s"
  by (simp add: re_sub_def pat_image_def lit_def u_def re_sub_none del: re_sub_at.simps)

lemma limpiar_texto_sin_marcas:
  assumes "sin_marcas s"
  shows "limpiar_texto s
           = strip (re_sub pat_blanks [Lit [32]] (re_sub pat_newlines [Lit [10]] s))"
  using assms
  by (simp add: limpiar_texto_def Let_def sin_marcas_iff sub_headers_none sub_bold_none
      sub_italic_none sub_code_none sub_links_none sub_image_none)

lemma limpiar_texto_forma:
  "\<exists>t. limpiar_texto x
         = strip (re_sub pat_blanks [Lit [32]] (re_sub pat_newlines [Lit [10]] t))"
  by (simp add: limpiar_texto_def Let_def) blast

lemma sub_newlines_at:
  "re_sub pat_newlines repl s = re_sub_at [many1 (\<lambda>c. c = 10)] repl 0 s"
  by (simp only: re_sub_def pat_newlines_def)

lemma sub_blanks_at:
  "re_sub pat_blanks repl s = re_sub_at [many1 (\<lambda>c. c = 32 \<or> c = 9)] repl 0 s"
  by (simp only: re_sub_def pat_blanks_def)

lemma limpiar_texto_collapsed:
  "runs_collapsed (\<lambda>c. c = 10) 10 (limpiar_texto x)"
  "runs_collapsed (\<lambda>c. c = 32 \<or> c = 9) 32 (limpiar_texto x)"
proof -
  obtain t where t: "limpiar_texto x
         = strip (re_sub pat_blanks [Lit [32]] (re_sub pat_newlines [Lit [10]] t))"
    using limpiar_texto_forma by blast
  have "runs_collapsed (\<lambda>c. c = 10) 10 (re_sub pat_newlines [Lit [10]] t)"
    unfolding sub_newlines_at by (rule re_sub_many1_collapsed) simp
  then have "runs_collapsed (\<lambda>c. c = 10) 10
               (re_sub pat_blanks [Lit [32]] (re_sub pat_newlines [Lit [10]] t))"
    unfolding sub_blanks_at
    by (intro newlines_survive_blanks) simp_all
  then show "runs_collapsed (\<lambda>c. c = 10) 10 (limpiar_texto x)"
    unfolding t by (rule runs_collapsed_strip)
  have "runs_collapsed (\<lambda>c. c = 32 \<or> c = 9) 32
               (re_sub pat_blanks [Lit [32]] (re_sub pat_newlines [Lit [10]] t))"
    unfolding sub_blanks_at by (rule re_sub_many1_collapsed) simp
  then show "runs_collapsed (\<lambda>c. c = 32 \<or> c = 9) 32 (limpiar_texto x)"
    unfolding t by (rule runs_collapsed_strip)
qed

lemma limpiar_texto_stripped: "strip (limpiar_texto x) = limpiar_texto x"
  by (simp add: limpiar_texto_def Let_def strip_idem)

lemma set_re_sub_many1:
  "set (re_sub_at [many1 p] [Lit [r]] pos s) \<subseteq> insert r (set s)"
proof (induction s arbitrary: pos rule: length_induct)
  case (1 s)
  show ?case
  proof (cases s)
    case Nil
    then show ?thesis by (simp add: match_many1)
  next
    case (Cons c s')
    show ?thesis
    proof (cases "p c")
      case False
      have "set (re_sub_at [many1 p] [Lit [r]] (Suc pos) s') \<subseteq> insert r (set s')"
        using 1 Cons by simp
      with False show ?thesis
        by (auto simp add: Cons re_sub_many1_Cons simp del: re_sub_at.simps)
    next
      case True
      let ?t = "dropWhile p s'"
      let ?q = "pos + (Suc (length s') - length ?t)"
      have "length ?t < length s" using length_dropWhile_le [of p s'] by (simp add: Cons)
      then have "set (re_sub_at [many1 p] [Lit [r]] ?q ?t) \<subseteq> insert r (set ?t)"
        using 1 by simp
      moreover have "set ?t \<subseteq> set s'" using set_dropWhileD by fastforce
      ultimately show ?thesis using True
        by (auto simp add: Cons re_sub_many1_Cons simp del: re_sub_at.simps)
    qed
  qed
qed

lemma sin_marcas_subset: "set t \<subseteq> insert r (set s) \<Longrightarrow> r \<notin> set marcas \<Longrightarrow> sin_marcas s \<Longrightarrow> sin_marcas t"
  by (auto simp: sin_marcas_def list_all_iff)

lemma sin_marcas_limpiar_texto:
  assumes "sin_marcas x"
  shows "sin_marcas (limpiar_texto x)"
proof -
  let ?n = "re_sub pat_newlines [Lit [10]] x"
  let ?b = "re_sub pat_blanks [Lit [32]] ?n"
  have r: "10 \<notin> set marcas" "32 \<notin> set marcas" by (simp_all add: marcas_def)
  have "set ?n \<subseteq> insert 10 (set x)"
    unfolding sub_newlines_at by (rule set_re_sub_many1)
  from this r(1) assms have n: "sin_marcas ?n" by (rule sin_marcas_subset)
  have "set ?b \<subseteq> insert 32 (set ?n)"
    unfolding sub_blanks_at by (rule set_re_sub_many1)
  from this r(2) n have "sin_marcas ?b" by (rule sin_marcas_subset)
  then have "sin_marcas (strip ?b)"
    using set_strip [of ?b] by (auto simp: sin_marcas_def list_all_iff)
  then show ?thesis by (simp add: limpiar_texto_sin_marcas [OF assms])
qed

text \<open>
  Claim C4, amended. For a text without any of the characters a markup pattern starts
  with (\<open>#\<close>, \<open>*\<close>, the backquote, \<open>[\<close> and \<open><\<close>), and for every text whose result under
  \<open>limpiar_texto\<close> has none of them, a second application of \<open>limpiar_texto\<close> does not
  change the result of the first.
\<close>

theorem normalizer_idempotent_sin_marcas:
  assumes "sin_marcas x \<or> sin_marcas (limpiar_texto x)"
  shows "limpiar_texto (limpiar_texto x) = limpiar_texto x"
proof -
  let ?y = "limpiar_texto x"
  from assms have m: "sin_marcas ?y" using sin_marcas_limpiar_texto by blast
  have "re_sub pat_newlines [Lit [10]] ?y = ?y"
    unfolding sub_newlines_at
    using limpiar_texto_collapsed(1) by (rule re_sub_many1_fix)
  moreover have "re_sub pat_blanks [Lit [32]] ?y = ?y"
    unfolding sub_blanks_at
    using limpiar_texto_collapsed(2) by (rule re_sub_many1_fix)
  ultimately show ?thesis
    by (simp add: limpiar_texto_sin_marcas [OF m] limpiar_texto_stripped)
qed

lemma limpiar_texto_ej_marcas:
  "limpiar_texto (u ''## **Yusa**  *wi*'') = u ''Yusa wi''"
  by (simp add: limpiar_texto_def eval_defs)

theorem normalizer_idempotent_sin_marcas_witness:
  "sin_marcas (limpiar_texto (u ''## **Yusa**  *wi*''))
   \<and> limpiar_texto (u ''## **Yusa**  *wi*'') = u ''Yusa wi''
   \<and> limpiar_texto (u ''Yusa wi'') = u ''Yusa wi''"
proof -
  have m: "sin_marcas (limpiar_texto (u ''## **Yusa**  *wi*''))"
    by (simp add: limpiar_texto_ej_marcas) (simp add: sin_marcas_def marcas_def u_def)
  from normalizer_idempotent_sin_marcas [OF disjI2 [OF m]] m show ?thesis
    by (simp add: limpiar_texto_ej_marcas)
qed

text \<open>
  Claim C4 as stated fails: the patterns are applied once, in a fixed order, and the
  result of a later one can be markup for an earlier one. The code pattern leaves a
  heading marker that only a second application removes.
\<close>

theorem normalizer_idempotent_counterexample:
  "limpiar_texto (u ''`#` Yusa'') = u ''# Yusa''
   \<and> limpiar_texto (limpiar_texto (u ''`#` Yusa'')) = u ''Yusa''
   \<and> limpiar_texto (limpiar_texto (u ''`#` Yusa'')) \<noteq> limpiar_texto (u ''`#` Yusa'')"
proof -
  have 1: "limpiar_texto (u ''`#` Yusa'') = u ''# Yusa''"
    by (simp add: limpiar_texto_def eval_defs)
  have 2: "limpiar_texto (u ''# Yusa'') = u ''Yusa''"
    by (simp add: limpiar_texto_def eval_defs)
  show ?thesis by (simp add: 1 2) (simp add: u_def)
qed

lemma limpiar_texto_quitar:
  "limpiar_texto texto
     = strip (re_sub pat_blanks [Lit [32]] (re_sub pat_newlines [Lit [10]] (quitar_marcas texto)))"
  by (simp add: limpiar_texto_def quitar_marcas_def Let_def)

lemma match_run:
  assumes "x \<noteq> [] \<or> lo = 0" "\<forall>c\<in>set x. p c" "rest = [] \<or> \<not> p (hd rest)"
    and "lo \<le> length x" "case hi of None \<Rightarrow> True | Some h \<Rightarrow> length x \<le> h"
    and "match_items r (pos + length x) rest = Some (gs, t)"
  shows "match_items ((cap, Rep p lo hi True) # r) pos (x @ rest)
           = Some ((if cap then [x] else []) @ gs, t)"
proof -
  have tw: "takeWhile p (x @ rest) = x"
    using assms(2,3) by (cases rest) (simp_all add: takeWhile_tail)
  have m: "length x = (case hi of None \<Rightarrow> length x | Some h \<Rightarrow> min h (length x))"
    using assms(5) by (cases hi) auto
  have c: "counts True lo hi (length x) = length x # rev [lo..<length x]"
    using assms(4) m by (rule counts_greedy_max)
  show ?thesis
    by (simp add: tw c assms(6))
qed

lemma sin_marcas_append [simp]: "sin_marcas (a @ b) \<longleftrightarrow> sin_marcas a \<and> sin_marcas b"
  by (simp add: sin_marcas_def)

subsection \<open>Texts made of markup constructs\<close>

lemma re_sub_at_hit:
  assumes "match_items pat pos (m @ b) = Some (gs, b)" "m \<noteq> []"
  shows "re_sub_at pat repl pos (m @ b) = expand repl gs @ re_sub_at pat repl (pos + length m) b"
proof -
  from assms(2) obtain c m' where m: "m = c # m'" by (cases m) auto
  show ?thesis using assms(1) by (simp add: m)
qed

lemma re_sub_concat:
  assumes base: "\<And>pos. re_sub_at pat repl pos [] = []"
    and step: "\<And>p ps pos. documento_ok (p # ps) \<Longrightarrow>
        re_sub_at pat repl pos (f p @ concat (map f ps))
          = g p @ re_sub_at pat repl (pos + length (f p)) (concat (map f ps))"
  shows "documento_ok ps \<Longrightarrow> re_sub_at pat repl pos (concat (map f ps)) = concat (map g ps)"
proof (induction ps arbitrary: pos)
  case Nil
  show ?case by (simp add: base del: re_sub_at.simps)
next
  case (Cons p ps)
  from Cons.prems have "documento_ok ps" by simp
  then have "re_sub_at pat repl (pos + length (f p)) (concat (map f ps)) = concat (map g ps)"
    by (rule Cons.IH)
  with step [OF Cons.prems, of pos] show ?case by simp
qed

lemma pat_heads:
  "pat_bold = (False, Rep (\<lambda>c. c = 42) (Suc 0) (Some (Suc 0)) True)
        # lit [42] @ [group_many1 (\<lambda>c. c \<noteq> 42)] @ lit [42, 42]"
  "pat_italic = (False, Rep (\<lambda>c. c = 42) (Suc 0) (Some (Suc 0)) True)
        # [group_many1 (\<lambda>c. c \<noteq> 42)] @ lit [42]"
  "pat_code = (False, Rep (\<lambda>c. c = 96) (Suc 0) (Some (Suc 0)) True)
        # [group_many1 (\<lambda>c. c \<noteq> 96)] @ lit [96]"
  "pat_links = (False, Rep (\<lambda>c. c = 91) (Suc 0) (Some (Suc 0)) True)
        # [group_many1 (\<lambda>c. c \<noteq> 93)] @ lit [93, 40] @ [many1 (\<lambda>c. c \<noteq> 41)] @ lit [41]"
  "pat_image = (False, Rep (\<lambda>c. c = 60) (Suc 0) (Some (Suc 0)) True) # lit (u ''!-- image -->'')"
  by (simp_all add: pat_bold_def pat_italic_def pat_code_def pat_links_def pat_image_def
      lit_def u_def)

lemma skip_headers:
  "\<forall>c\<in>set a. c \<noteq> 35 \<Longrightarrow>
     re_sub_at pat_headers repl pos (a @ b) = a @ re_sub_at pat_headers repl (pos + length a) b"
  unfolding pat_headers_def by (rule re_sub_skip) simp_all

lemma skip_bold:
  "\<forall>c\<in>set a. c \<noteq> 42 \<Longrightarrow>
     re_sub_at pat_bold repl pos (a @ b) = a @ re_sub_at pat_bold repl (pos + length a) b"
  unfolding pat_heads by (rule re_sub_skip) simp_all

lemma skip_italic:
  "\<forall>c\<in>set a. c \<noteq> 42 \<Longrightarrow>
     re_sub_at pat_italic repl pos (a @ b) = a @ re_sub_at pat_italic repl (pos + length a) b"
  unfolding pat_heads by (rule re_sub_skip) simp_all

lemma skip_code:
  "\<forall>c\<in>set a. c \<noteq> 96 \<Longrightarrow>
     re_sub_at pat_code repl pos (a @ b) = a @ re_sub_at pat_code repl (pos + length a) b"
  unfolding pat_heads by (rule re_sub_skip) simp_all

lemma skip_links:
  "\<forall>c\<in>set a. c \<noteq> 91 \<Longrightarrow>
     re_sub_at pat_links repl pos (a @ b) = a @ re_sub_at pat_links repl (pos + length a) b"
  unfolding pat_heads by (rule re_sub_skip) simp_all

lemma skip_image:
  "\<forall>c\<in>set a. c \<noteq> 60 \<Longrightarrow>
     re_sub_at pat_image repl pos (a @ b) = a @ re_sub_at pat_image repl (pos + length a) b"
  unfolding pat_heads by (rule re_sub_skip) simp_all

lemma sub_at_Nil:
  "re_sub_at pat_headers repl pos [] = []"
  "re_sub_at pat_bold repl pos [] = []"
  "re_sub_at pat_italic repl pos [] = []"
  "re_sub_at pat_code repl pos [] = []"
  "re_sub_at pat_links repl pos [] = []"
  "re_sub_at pat_image repl pos [] = []"
  using skip_headers [of "[]" repl pos "[]"]
  by (simp_all add: pat_headers_def pat_heads many1_def counts_def)

lemma match_headers:
  assumes "0 < n" "n \<le> 6" "w \<noteq> []" "\<forall>c\<in>set w. py_isspace c" "b = [] \<or> \<not> py_isspace (hd b)"
  shows "match_items pat_headers q ((replicate n 35 @ w) @ b) = Some ([], b)"
proof -
  have d: "dropWhile py_isspace (w @ b) = b"
    using assms(4,5) by (cases b) (simp_all add: dropWhile_append3)
  have ne: "w @ b \<noteq> [] \<and> py_isspace (hd (w @ b))"
    using assms(3,4) by (cases w) auto
  have s: "match_items [many1 py_isspace] q' (w @ b) = Some ([], b)" for q'
    using ne by (simp only: match_many1 d) simp
  have "\<not> py_isspace 35" by (simp add: py_isspace_def)
  then have h: "w @ b = [] \<or> \<not> hd (w @ b) = 35"
    using assms(3,4) by (cases w) auto
  show ?thesis
    unfolding pat_headers_def
    using match_run [of "replicate n 35" 1 "\<lambda>c. c = 35" "w @ b" "Some 6" "[many1 py_isspace]"
        q "[]" b False] assms(1,2) h s
    by simp
qed

lemma match_bold:
  assumes "x \<noteq> []" "\<forall>c\<in>set x. c \<noteq> 42"
  shows "match_items pat_bold q ((u ''**'' @ x @ u ''**'') @ b) = Some ([x], b)"
proof -
  have l: "Suc 0 \<le> length x" using assms(1) by (cases x) auto
  have g: "match_items (group_many1 (\<lambda>c. c \<noteq> 42) # lit [42, 42]) q' (x @ 42 # 42 # b)
             = Some ([x], b)" for q'
    unfolding group_many1_def One_nat_def
    using match_run [OF _ assms(2), of 1 "42 # 42 # b" None "lit [42, 42]" q' "[]" b True] assms(1) l
    by (simp add: lit_def match_char del: match_items.simps(4))
  show ?thesis
    using g by (simp add: pat_heads lit_def u_def match_char del: match_items.simps(4))
qed

lemma match_italic:
  assumes "x \<noteq> []" "\<forall>c\<in>set x. c \<noteq> 42"
  shows "match_items pat_italic q ((u ''*'' @ x @ u ''*'') @ b) = Some ([x], b)"
proof -
  have l: "Suc 0 \<le> length x" using assms(1) by (cases x) auto
  have g: "match_items (group_many1 (\<lambda>c. c \<noteq> 42) # lit [42]) q' (x @ 42 # b)
             = Some ([x], b)" for q'
    unfolding group_many1_def One_nat_def
    using match_run [OF _ assms(2), of 1 "42 # b" None "lit [42]" q' "[]" b True] assms(1) l
    by (simp add: lit_def match_char del: match_items.simps(4))
  show ?thesis
    using g by (simp add: pat_heads lit_def u_def match_char del: match_items.simps(4))
qed

lemma match_code:
  assumes "x \<noteq> []" "\<forall>c\<in>set x. c \<noteq> 96"
  shows "match_items pat_code q (([96] @ x @ [96]) @ b) = Some ([x], b)"
proof -
  have l: "Suc 0 \<le> length x" using assms(1) by (cases x) auto
  have g: "match_items (group_many1 (\<lambda>c. c \<noteq> 96) # lit [96]) q' (x @ 96 # b)
             = Some ([x], b)" for q'
    unfolding group_many1_def One_nat_def
    using match_run [OF _ assms(2), of 1 "96 # b" None "lit [96]" q' "[]" b True] assms(1) l
    by (simp add: lit_def match_char del: match_items.simps(4))
  show ?thesis
    using g by (simp add: pat_heads lit_def match_char del: match_items.simps(4))
qed

lemma match_links:
  assumes "x \<noteq> []" "\<forall>c\<in>set x. c \<noteq> 93" "d \<noteq> []" "\<forall>c\<in>set d. c \<noteq> 41"
  shows "match_items pat_links q ((u ''['' @ x @ u '']('' @ d @ u '')'') @ b) = Some ([x], b)"
proof -
  have lx: "Suc 0 \<le> length x" using assms(1) by (cases x) auto
  have ld: "Suc 0 \<le> length d" using assms(3) by (cases d) auto
  have t: "match_items (many1 (\<lambda>c. c \<noteq> 41) # lit [41]) q' (d @ 41 # b) = Some ([], b)" for q'
    unfolding many1_def One_nat_def
    using match_run [OF _ assms(4), of 1 "41 # b" None "lit [41]" q' "[]" b False] assms(3) ld
    by (simp add: lit_def match_char del: match_items.simps(4))
  have g: "match_items (group_many1 (\<lambda>c. c \<noteq> 93) # lit [93, 40]
                @ [many1 (\<lambda>c. c \<noteq> 41)] @ lit [41]) q' (x @ 93 # 40 # d @ 41 # b)
             = Some ([x], b)" for q'
    unfolding group_many1_def One_nat_def
    using match_run [OF _ assms(2), of 1 "93 # 40 # d @ 41 # b" None
        "lit [93, 40] @ [many1 (\<lambda>c. c \<noteq> 41)] @ lit [41]" q' "[]" b True] assms(1) lx t
    by (simp add: lit_def match_char del: match_items.simps(4))
  show ?thesis
    using g by (simp add: pat_heads lit_def u_def match_char del: match_items.simps(4))
qed

lemma match_image:
  "match_items pat_image q (u ''<!-- image -->'' @ b) = Some ([], b)"
  by (simp add: pat_image_def lit_def u_def match_char del: match_items.simps(4))

lemma bold_italic_step:
  assumes "x \<noteq> []" "\<forall>c\<in>set x. c \<noteq> 42" "b = [] \<or> hd b \<noteq> 42"
  shows "re_sub_at pat_bold repl pos ((u ''*'' @ x @ u ''*'') @ b)
           = (u ''*'' @ x @ u ''*'') @ re_sub_at pat_bold repl (pos + length (u ''*'' @ x @ u ''*'')) b"
proof -
  let ?r = "(False, Rep (\<lambda>c. c = 42) (Suc 0) (Some (Suc 0)) True)
              # [group_many1 (\<lambda>c. c \<noteq> 42)] @ lit [42, 42]"
  let ?p = "(False, Rep (\<lambda>c. c = 42) (Suc 0) (Some (Suc 0)) True) # ?r"
  have p: "pat_bold = ?p"
    by (simp add: pat_bold_def lit_def u_def)
  have n1: "match_items ?p q (42 # x @ 42 # b) = None" for q
  proof -
    have "x @ 42 # b = [] \<or> hd (x @ 42 # b) \<noteq> 42" using assms(1,2) by (cases x) auto
    then have "match_items ?r (Suc q) (x @ 42 # b) = None" by (rule match_char_absent)
    then show ?thesis by (simp only: match_char)
  qed
  have n2: "match_items ?p q (42 # b) = None" for q
  proof -
    from assms(3) have "match_items ?r (Suc q) b = None" by (rule match_char_absent)
    then show ?thesis by (simp only: match_char)
  qed
  have "re_sub_at ?p repl pos (42 # x @ 42 # b)
          = 42 # re_sub_at ?p repl (Suc pos) (x @ 42 # b)"
    using n1 by (rule re_sub_step_none)
  also have "re_sub_at ?p repl (Suc pos) (x @ 42 # b)
          = x @ re_sub_at ?p repl (Suc pos + length x) (42 # b)"
    using assms(2) by (intro re_sub_skip) auto
  also have "re_sub_at ?p repl (Suc pos + length x) (42 # b)
          = 42 # re_sub_at ?p repl (Suc (Suc pos + length x)) b"
    using n2 by (rule re_sub_step_none)
  finally have "re_sub_at ?p repl pos (42 # x @ 42 # b)
      = 42 # x @ 42 # re_sub_at ?p repl (Suc (Suc pos + length x)) b" by simp
  then show ?thesis by (simp add: p u_def del: re_sub_at.simps)
qed

lemma sin_35:
  assumes "pieza_ok p" "paso p \<noteq> 1"
  shows "\<forall>c\<in>set (fuente p). c \<noteq> 35"
  using assms by (cases p) (auto simp: u_def sin_marcas_iff)

lemma sin_42_bold:
  assumes "pieza_ok p" "paso p \<noteq> 2" "paso p \<noteq> 3"
  shows "\<forall>c\<in>set (fuente_tras 1 p). c \<noteq> 42"
  using assms by (cases p) (auto simp: fuente_tras_def u_def sin_marcas_iff)

lemma sin_42_italic:
  assumes "pieza_ok p" "paso p \<noteq> 3"
  shows "\<forall>c\<in>set (fuente_tras 2 p). c \<noteq> 42"
  using assms by (cases p) (auto simp: fuente_tras_def u_def sin_marcas_iff)

lemma sin_96:
  assumes "pieza_ok p" "paso p \<noteq> 4"
  shows "\<forall>c\<in>set (fuente_tras 3 p). c \<noteq> 96"
  using assms by (cases p) (auto simp: fuente_tras_def u_def sin_marcas_iff)

lemma sin_91:
  assumes "pieza_ok p" "paso p \<noteq> 5"
  shows "\<forall>c\<in>set (fuente_tras 4 p). c \<noteq> 91"
  using assms by (cases p) (auto simp: fuente_tras_def u_def sin_marcas_iff)

lemma sin_60:
  assumes "pieza_ok p" "paso p \<noteq> 6"
  shows "\<forall>c\<in>set (fuente_tras 5 p). c \<noteq> 60"
  using assms by (cases p) (auto simp: fuente_tras_def u_def sin_marcas_iff)

lemma fuente_tras_mismo:
  "paso p \<noteq> 1 \<Longrightarrow> fuente_tras 1 p = fuente p"
  "paso p \<noteq> 2 \<Longrightarrow> fuente_tras 2 p = fuente_tras 1 p"
  "paso p \<noteq> 3 \<Longrightarrow> fuente_tras 3 p = fuente_tras 2 p"
  "paso p \<noteq> 4 \<Longrightarrow> fuente_tras 4 p = fuente_tras 3 p"
  "paso p \<noteq> 5 \<Longrightarrow> fuente_tras 5 p = fuente_tras 4 p"
  "paso p \<noteq> 6 \<Longrightarrow> fuente_tras 6 p = fuente_tras 5 p"
  by (cases p; simp add: fuente_tras_def)+

lemma fuente_tras_6: "fuente_tras 6 = etiqueta"
proof
  fix p show "fuente_tras 6 p = etiqueta p"
    by (cases p) (simp_all add: fuente_tras_def)
qed

lemma paso_headers:
  assumes "documento_ok (p # ps)"
  shows "re_sub_at pat_headers [] pos (fuente p @ concat (map fuente ps))
     = fuente_tras 1 p @ re_sub_at pat_headers [] (pos + length (fuente p)) (concat (map fuente ps))"
proof (cases "paso p = 1")
  case False
  from assms False have "\<forall>c\<in>set (fuente p). c \<noteq> 35" by (intro sin_35) simp_all
  then show ?thesis by (simp only: fuente_tras_mismo(1) [OF False] skip_headers)
next
  case True
  then obtain n w where p: "p = Encabezado n w" by (cases p) simp_all
  let ?b = "concat (map fuente ps)"
  from assms p have h: "0 < n" "n \<le> 6" "w \<noteq> []" "\<forall>c\<in>set w. py_isspace c"
    "?b = [] \<or> \<not> py_isspace (hd ?b)"
    by (simp_all add: list_all_iff)
  have "match_items pat_headers pos ((replicate n 35 @ w) @ ?b) = Some ([], ?b)"
    using h by (rule match_headers)
  then have "re_sub_at pat_headers [] pos ((replicate n 35 @ w) @ ?b)
      = expand [] [] @ re_sub_at pat_headers [] (pos + length (replicate n 35 @ w)) ?b"
    by (rule re_sub_at_hit) (use h in simp)
  then show ?thesis by (simp add: p fuente_tras_def del: re_sub_at.simps)
qed

lemma paso_bold:
  assumes "documento_ok (p # ps)"
  shows "re_sub_at pat_bold [Group 1] pos (fuente_tras 1 p @ concat (map (fuente_tras 1) ps))
     = fuente_tras 2 p @ re_sub_at pat_bold [Group 1] (pos + length (fuente_tras 1 p))
         (concat (map (fuente_tras 1) ps))"
proof -
  let ?b = "concat (map (fuente_tras 1) ps)"
  consider (hit) "paso p = 2" | (italic) "paso p = 3" | (other) "paso p \<noteq> 2" "paso p \<noteq> 3"
    by blast
  then show ?thesis
  proof cases
    case other
    from assms other have "\<forall>c\<in>set (fuente_tras 1 p). c \<noteq> 42" by (intro sin_42_bold) simp_all
    then show ?thesis by (simp only: fuente_tras_mismo(2) [OF other(1)] skip_bold)
  next
    case italic
    then obtain x where p: "p = Cursiva x" by (cases p) simp_all
    from assms p have h: "x \<noteq> []" "\<forall>c\<in>set x. c \<noteq> 42" "?b = [] \<or> hd ?b \<noteq> 42"
      by (simp_all add: sin_marcas_iff)
    from h have "re_sub_at pat_bold [Group 1] pos ((u ''*'' @ x @ u ''*'') @ ?b)
           = (u ''*'' @ x @ u ''*'') @ re_sub_at pat_bold [Group 1]
               (pos + length (u ''*'' @ x @ u ''*'')) ?b"
      by (rule bold_italic_step)
    then show ?thesis by (simp add: p fuente_tras_def del: re_sub_at.simps)
  next
    case hit
    then obtain x where p: "p = Negrita x" by (cases p) simp_all
    from assms p have h: "x \<noteq> []" "\<forall>c\<in>set x. c \<noteq> 42"
      by (simp_all add: sin_marcas_iff)
    have "match_items pat_bold pos ((u ''**'' @ x @ u ''**'') @ ?b) = Some ([x], ?b)"
      using h by (rule match_bold)
    then have "re_sub_at pat_bold [Group 1] pos ((u ''**'' @ x @ u ''**'') @ ?b)
      = expand [Group 1] [x] @ re_sub_at pat_bold [Group 1]
          (pos + length (u ''**'' @ x @ u ''**'')) ?b"
      by (rule re_sub_at_hit) (simp add: u_def)
    then show ?thesis by (simp add: p fuente_tras_def del: re_sub_at.simps)
  qed
qed

lemma paso_italic:
  assumes "documento_ok (p # ps)"
  shows "re_sub_at pat_italic [Group 1] pos (fuente_tras 2 p @ concat (map (fuente_tras 2) ps))
     = fuente_tras 3 p @ re_sub_at pat_italic [Group 1] (pos + length (fuente_tras 2 p))
         (concat (map (fuente_tras 2) ps))"
proof (cases "paso p = 3")
  case False
  from assms False have "\<forall>c\<in>set (fuente_tras 2 p). c \<noteq> 42" by (intro sin_42_italic) simp_all
  then show ?thesis by (simp only: fuente_tras_mismo(3) [OF False] skip_italic)
next
  case True
  let ?b = "concat (map (fuente_tras 2) ps)"
  from True obtain x where p: "p = Cursiva x" by (cases p) simp_all
  from assms p have h: "x \<noteq> []" "\<forall>c\<in>set x. c \<noteq> 42"
    by (simp_all add: sin_marcas_iff)
  have "match_items pat_italic pos ((u ''*'' @ x @ u ''*'') @ ?b) = Some ([x], ?b)"
    using h by (rule match_italic)
  then have "re_sub_at pat_italic [Group 1] pos ((u ''*'' @ x @ u ''*'') @ ?b)
      = expand [Group 1] [x] @ re_sub_at pat_italic [Group 1]
          (pos + length (u ''*'' @ x @ u ''*'')) ?b"
    by (rule re_sub_at_hit) (simp add: u_def)
  then show ?thesis by (simp add: p fuente_tras_def del: re_sub_at.simps)
qed

lemma paso_code:
  assumes "documento_ok (p # ps)"
  shows "re_sub_at pat_code [Group 1] pos (fuente_tras 3 p @ concat (map (fuente_tras 3) ps))
     = fuente_tras 4 p @ re_sub_at pat_code [Group 1] (pos + length (fuente_tras 3 p))
         (concat (map (fuente_tras 3) ps))"
proof (cases "paso p = 4")
  case False
  from assms False have "\<forall>c\<in>set (fuente_tras 3 p). c \<noteq> 96" by (intro sin_96) simp_all
  then show ?thesis by (simp only: fuente_tras_mismo(4) [OF False] skip_code)
next
  case True
  let ?b = "concat (map (fuente_tras 3) ps)"
  from True obtain x where p: "p = Codigo x" by (cases p) simp_all
  from assms p have h: "x \<noteq> []" "\<forall>c\<in>set x. c \<noteq> 96"
    by (simp_all add: sin_marcas_iff)
  have "match_items pat_code pos (([96] @ x @ [96]) @ ?b) = Some ([x], ?b)"
    using h by (rule match_code)
  then have "re_sub_at pat_code [Group 1] pos (([96] @ x @ [96]) @ ?b)
      = expand [Group 1] [x] @ re_sub_at pat_code [Group 1]
          (pos + length ([96] @ x @ [96])) ?b"
    by (rule re_sub_at_hit) simp
  then show ?thesis by (simp add: p fuente_tras_def del: re_sub_at.simps)
qed

lemma paso_links:
  assumes "documento_ok (p # ps)"
  shows "re_sub_at pat_links [Group 1] pos (fuente_tras 4 p @ concat (map (fuente_tras 4) ps))
     = fuente_tras 5 p @ re_sub_at pat_links [Group 1] (pos + length (fuente_tras 4 p))
         (concat (map (fuente_tras 4) ps))"
proof (cases "paso p = 5")
  case False
  from assms False have "\<forall>c\<in>set (fuente_tras 4 p). c \<noteq> 91" by (intro sin_91) simp_all
  then show ?thesis by (simp only: fuente_tras_mismo(5) [OF False] skip_links)
next
  case True
  let ?b = "concat (map (fuente_tras 4) ps)"
  from True obtain x d where p: "p = Enlace x d" by (cases p) simp_all
  from assms p have h: "x \<noteq> []" "\<forall>c\<in>set x. c \<noteq> 93" "d \<noteq> []" "\<forall>c\<in>set d. c \<noteq> 41"
    by auto
  have "match_items pat_links pos ((u ''['' @ x @ u '']('' @ d @ u '')'') @ ?b) = Some ([x], ?b)"
    using h by (rule match_links)
  then have "re_sub_at pat_links [Group 1] pos ((u ''['' @ x @ u '']('' @ d @ u '')'') @ ?b)
      = expand [Group 1] [x] @ re_sub_at pat_links [Group 1]
          (pos + length (u ''['' @ x @ u '']('' @ d @ u '')'')) ?b"
    by (rule re_sub_at_hit) (simp add: u_def)
  then show ?thesis by (simp add: p fuente_tras_def del: re_sub_at.simps)
qed

lemma paso_image:
  assumes "documento_ok (p # ps)"
  shows "re_sub_at pat_image [] pos (fuente_tras 5 p @ concat (map (fuente_tras 5) ps))
     = fuente_tras 6 p @ re_sub_at pat_image [] (pos + length (fuente_tras 5 p))
         (concat (map (fuente_tras 5) ps))"
proof (cases "paso p = 6")
  case False
  from assms False have "\<forall>c\<in>set (fuente_tras 5 p). c \<noteq> 60" by (intro sin_60) simp_all
  then show ?thesis by (simp only: fuente_tras_mismo(6) [OF False] skip_image)
next
  case True
  let ?b = "concat (map (fuente_tras 5) ps)"
  from True have p: "p = Imagen" by (cases p) simp_all
  have "match_items pat_image pos (u ''<!-- image -->'' @ ?b) = Some ([], ?b)"
    by (rule match_image)
  then have "re_sub_at pat_image [] pos (u ''<!-- image -->'' @ ?b)
      = expand [] [] @ re_sub_at pat_image [] (pos + length (u ''<!-- image -->'')) ?b"
    by (rule re_sub_at_hit) (simp add: u_def)
  then show ?thesis by (simp add: p fuente_tras_def del: re_sub_at.simps)
qed

lemma pasadas:
  assumes "documento_ok ps"
  shows "re_sub pat_headers [] (concat (map fuente ps)) = concat (map (fuente_tras 1) ps)"
    and "re_sub pat_bold [Group 1] (concat (map (fuente_tras 1) ps)) = concat (map (fuente_tras 2) ps)"
    and "re_sub pat_italic [Group 1] (concat (map (fuente_tras 2) ps)) = concat (map (fuente_tras 3) ps)"
    and "re_sub pat_code [Group 1] (concat (map (fuente_tras 3) ps)) = concat (map (fuente_tras 4) ps)"
    and "re_sub pat_links [Group 1] (concat (map (fuente_tras 4) ps)) = concat (map (fuente_tras 5) ps)"
    and "re_sub pat_image [] (concat (map (fuente_tras 5) ps)) = concat (map etiqueta ps)"
proof -
  show "re_sub pat_headers [] (concat (map fuente ps)) = concat (map (fuente_tras 1) ps)"
    unfolding re_sub_def using sub_at_Nil(1) paso_headers assms by (rule re_sub_concat)
  show "re_sub pat_bold [Group 1] (concat (map (fuente_tras 1) ps)) = concat (map (fuente_tras 2) ps)"
    unfolding re_sub_def using sub_at_Nil(2) paso_bold assms by (rule re_sub_concat)
  show "re_sub pat_italic [Group 1] (concat (map (fuente_tras 2) ps)) = concat (map (fuente_tras 3) ps)"
    unfolding re_sub_def using sub_at_Nil(3) paso_italic assms by (rule re_sub_concat)
  show "re_sub pat_code [Group 1] (concat (map (fuente_tras 3) ps)) = concat (map (fuente_tras 4) ps)"
    unfolding re_sub_def using sub_at_Nil(4) paso_code assms by (rule re_sub_concat)
  show "re_sub pat_links [Group 1] (concat (map (fuente_tras 4) ps)) = concat (map (fuente_tras 5) ps)"
    unfolding re_sub_def using sub_at_Nil(5) paso_links assms by (rule re_sub_concat)
  have "re_sub pat_image [] (concat (map (fuente_tras 5) ps)) = concat (map (fuente_tras 6) ps)"
    unfolding re_sub_def using sub_at_Nil(6) paso_image assms by (rule re_sub_concat)
  then show "re_sub pat_image [] (concat (map (fuente_tras 5) ps)) = concat (map etiqueta ps)"
    by (simp only: fuente_tras_6)
qed

lemma quitar_marcas_piezas:
  assumes "documento_ok ps"
  shows "quitar_marcas (concat (map fuente ps)) = concat (map etiqueta ps)"
  by (simp only: quitar_marcas_def pasadas [OF assms])

lemma sin_marcas_etiquetas: "documento_ok ps \<Longrightarrow> sin_marcas (concat (map etiqueta ps))"
proof (induction ps)
  case Nil
  show ?case by (simp add: sin_marcas_def)
next
  case (Cons p ps)
  from Cons.prems have "pieza_ok p" by simp
  then have "sin_marcas (etiqueta p)" by (cases p) (simp_all add: sin_marcas_def)
  with Cons show ?case by simp
qed

text \<open>
  Claim C7, amended. Let a text be a sequence of pieces: plain text, heading markers (one
  to six \<open>#\<close> with the blanks after them), bold, italic, inline code and link
  constructs, and image placeholders \<open><!-- image -->\<close>; plain text, labels and link
  targets have none of the characters \<open>#\<close>, \<open>*\<close>, backquote, \<open>[\<close> and \<open><\<close>, labels and
  targets are not empty, the label of a link has no \<open>]\<close> and its target no \<open>)\<close>, the text
  after a heading marker starts with no blank, and the closing \<open>*\<close> of an italic
  construct is followed by no \<open>*\<close> once the heading markers are taken out. Then the six
  markup statements of \<open>limpiar_texto\<close> turn the text into its plain texts and labels, in
  their order (nothing remains of a heading marker and of an image placeholder), and
  \<open>limpiar_texto\<close> returns these with the runs of newlines and of blanks collapsed and
  the ends stripped: exactly the plain texts and labels, where they have no such run and
  no blank end. None of the five characters is left in the result.
\<close>

theorem normalizer_constructs:
  assumes "documento_ok piezas"
  shows "quitar_marcas (concat (map fuente piezas)) = concat (map etiqueta piezas)
    \<and> limpiar_texto (concat (map fuente piezas))
        = strip (re_sub pat_blanks [Lit [32]]
            (re_sub pat_newlines [Lit [10]] (concat (map etiqueta piezas))))
    \<and> (runs_collapsed (\<lambda>c. c = 10) 10 (concat (map etiqueta piezas))
       \<and> runs_collapsed (\<lambda>c. c = 32 \<or> c = 9) 32 (concat (map etiqueta piezas))
       \<and> strip (concat (map etiqueta piezas)) = concat (map etiqueta piezas)
       \<longrightarrow> limpiar_texto (concat (map fuente piezas)) = concat (map etiqueta piezas))
    \<and> sin_marcas (limpiar_texto (concat (map fuente piezas)))"
proof -
  let ?L = "concat (map etiqueta piezas)"
  have q: "quitar_marcas (concat (map fuente piezas)) = ?L"
    using assms by (rule quitar_marcas_piezas)
  have l: "limpiar_texto (concat (map fuente piezas))
        = strip (re_sub pat_blanks [Lit [32]] (re_sub pat_newlines [Lit [10]] ?L))"
    by (simp only: limpiar_texto_quitar q)
  have e: "limpiar_texto (concat (map fuente piezas)) = ?L"
    if "runs_collapsed (\<lambda>c. c = 10) 10 ?L" "runs_collapsed (\<lambda>c. c = 32 \<or> c = 9) 32 ?L"
      "strip ?L = ?L"
  proof -
    have "re_sub pat_newlines [Lit [10]] ?L = ?L"
      unfolding sub_newlines_at using that(1) by (rule re_sub_many1_fix)
    moreover have "re_sub pat_blanks [Lit [32]] ?L = ?L"
      unfolding sub_blanks_at using that(2) by (rule re_sub_many1_fix)
    ultimately show ?thesis by (simp only: l that(3))
  qed
  have m: "sin_marcas ?L" using assms by (rule sin_marcas_etiquetas)
  then have "sin_marcas (limpiar_texto ?L)" by (rule sin_marcas_limpiar_texto)
  then have s: "sin_marcas (limpiar_texto (concat (map fuente piezas)))"
    by (simp only: l limpiar_texto_sin_marcas [OF m])
  from q l e s show ?thesis by blast
qed

theorem normalizer_constructs_witness:
  "concat (map fuente [Encabezado 2 (u '' ''), Negrita (u ''Yusa''), Plano (u '' ''),
       Negrita (u ''wi''), Plano (u '' ''), Cursiva (u ''Atsa''), Plano (u '' ''),
       Codigo (u ''x''), Enlace (u ''a'') (u ''b.md''), Imagen])
     = u ''## **Yusa** **wi** *Atsa* `x`[a](b.md)<!-- image -->''
   \<and> limpiar_texto (u ''## **Yusa** **wi** *Atsa* `x`[a](b.md)<!-- image -->'')
       = u ''Yusa wi Atsa xa''"
proof -
  let ?ps = "[Encabezado 2 (u '' ''), Negrita (u ''Yusa''), Plano (u '' ''),
       Negrita (u ''wi''), Plano (u '' ''), Cursiva (u ''Atsa''), Plano (u '' ''),
       Codigo (u ''x''), Enlace (u ''a'') (u ''b.md''), Imagen]"
  have d: "documento_ok ?ps"
    by (simp add: fuente_tras_def sin_marcas_def marcas_def u_def py_isspace_def)
  have s: "concat (map fuente ?ps) = u ''## **Yusa** **wi** *Atsa* `x`[a](b.md)<!-- image -->''"
    by (simp add: u_def numeral_2_eq_2)
  have l: "concat (map etiqueta ?ps) = u ''Yusa wi Atsa xa''"
    by (simp add: u_def)
  have n: "runs_collapsed (\<lambda>c. c = 10) 10 (u ''Yusa wi Atsa xa'')"
    "runs_collapsed (\<lambda>c. c = 32 \<or> c = 9) 32 (u ''Yusa wi Atsa xa'')"
    "strip (u ''Yusa wi Atsa xa'') = u ''Yusa wi Atsa xa''"
    by (simp_all add: u_def strip_def py_isspace_def)
  from normalizer_constructs [OF d] have
    "runs_collapsed (\<lambda>c. c = 10) 10 (u ''Yusa wi Atsa xa'')
       \<and> runs_collapsed (\<lambda>c. c = 32 \<or> c = 9) 32 (u ''Yusa wi Atsa xa'')
       \<and> strip (u ''Yusa wi Atsa xa'') = u ''Yusa wi Atsa xa''
       \<longrightarrow> limpiar_texto (u ''## **Yusa** **wi** *Atsa* `x`[a](b.md)<!-- image -->'')
            = u ''Yusa wi Atsa xa''"
    unfolding s l by blast
  with n s show ?thesis by blast
qed

text \<open>
  Claim C7 as stated fails. \<open>limpiar_texto\<close> has no pattern for image syntax: the link
  pattern rewrites \<open>![label](target)\<close> to \<open>!label\<close>, and an image with an empty label is
  left as it is. And not every construct is replaced by its label. A bold construct
  whose label has a \<open>*\<close> keeps markers; of two italic constructs followed by a bold one
  the markers of the bold one remain; a \<open>*\<close> in the plain text pairs with the opening
  \<open>*\<close> of an italic construct; a bold construct with an empty label, and a link whose
  label has a \<open>]\<close>, are left as they are; a link target ends at its first \<open>)\<close>; and of
  seven \<open>#\<close> one is left.
\<close>

theorem normalizer_constructs_counterexample:
  "limpiar_texto (u ''![Yusa](a.png)'') = u ''!Yusa''
   \<and> limpiar_texto (u ''![](a.png)'') = u ''![](a.png)''
   \<and> limpiar_texto (fuente (Negrita (u ''a*b''))) = u ''*ab**''
   \<and> limpiar_texto (concat (map fuente [Cursiva (u ''a''), Cursiva (u ''b''), Negrita (u ''c'')]))
       = u ''abc**''
   \<and> limpiar_texto (concat (map fuente [Plano (u ''2*3 ''), Cursiva (u ''x'')])) = u ''23 x*''
   \<and> limpiar_texto (fuente (Negrita [])) = u ''****''
   \<and> limpiar_texto (fuente (Enlace (u ''a]b'') (u ''c''))) = u ''[a]b](c)''
   \<and> limpiar_texto (fuente (Enlace (u ''a'') (u ''b)c''))) = u ''ac)''
   \<and> limpiar_texto (concat (map fuente [Encabezado 7 (u '' ''), Plano (u ''x'')])) = u ''#x''"
proof -
  have r: "replicate 7 x = [x, x, x, x, x, x, x]" for x :: nat
    by (simp add: eval_nat_numeral)
  show ?thesis
    by (simp add: limpiar_texto_def eval_defs r)
qed

section \<open>Matches of the substitution patterns are never empty\<close>

lemma counts_bounds: "k \<in> set (counts greedy lo hi avail) \<Longrightarrow> lo \<le> k \<and> k \<le> avail"
  by (auto simp: counts_def Let_def split: option.splits if_splits)

lemma match_length:
  "match_items pat pos s = Some (gs, t) \<Longrightarrow> length t + min_length pat \<le> length s"
  "match_rep cap r pos s ks = Some (gs, t) \<Longrightarrow>
     \<exists>k\<in>set ks. length t + min_length r \<le> length s - k"
proof (induction pat pos s and cap r pos s ks arbitrary: gs t and gs t
    rule: match_items_match_rep.induct)
  case (1 pos s)
  then show ?case by simp
next
  case (2 cap r pos s)
  then show ?case by (simp split: if_splits)
next
  case (3 cap r pos s)
  then show ?case by (simp split: if_splits)
next
  case (4 cap p lo hi greedy r pos s)
  from 4(2) have "match_rep cap r pos s (counts greedy lo hi (length (takeWhile p s))) = Some (gs, t)"
    by simp
  from 4(1) [OF this] obtain k where
      k: "k \<in> set (counts greedy lo hi (length (takeWhile p s)))"
      and l: "length t + min_length r \<le> length s - k" by blast
  from k have "lo \<le> k" "k \<le> length (takeWhile p s)" using counts_bounds by blast+
  moreover have "length (takeWhile p s) \<le> length s" by (rule length_takeWhile_le)
  ultimately show ?case using l by simp
next
  case (5 cap r pos s)
  then show ?case by simp
next
  case (6 cap r pos s k ks)
  show ?case
  proof (cases "match_items r (pos + k) (drop k s)")
    case None
    with 6(3) have "match_rep cap r pos s ks = Some (gs, t)" by simp
    from 6(2) [OF None this] show ?thesis by auto
  next
    case (Some a)
    obtain gs' t' where a: "a = (gs', t')" by (cases a)
    with Some 6(3) have "t' = t" by simp
    with Some a have "match_items r (pos + k) (drop k s) = Some (gs', t)" by simp
    from 6(1) [OF this] show ?thesis by simp
  qed
qed

lemma patterns_consume:
  assumes "pat \<in> set [pat_headers, pat_bold, pat_italic, pat_code, pat_links, pat_image,
      pat_newlines, pat_blanks, pat_list_dash, pat_trailing_number, pat_dot_leader, pat_dots,
      pat_comma, pat_spaces, pat_sentence_end]"
    and "match_items pat pos s = Some (gs, t)"
  shows "length t < length s"
proof -
  from assms(1) have "0 < min_length pat"
    by (auto simp: pattern_defs u_def)
  with match_length(1) [OF assms(2)] show ?thesis by simp
qed

section \<open>Table fragments in the cleaner\<close>

lemma match_rep_eol:
  "match_rep cap [(b, Eol)] pos s ks = Some r \<Longrightarrow>
     \<exists>k\<in>set ks. drop k s = [] \<or> drop k s = [10]"
proof (induction ks)
  case Nil
  then show ?case by simp
next
  case (Cons k ks)
  show ?case
  proof (cases "drop k s = [] \<or> drop k s = [10]")
    case True
    then show ?thesis by auto
  next
    case False
    then have "match_items [(b, Eol)] (pos + k) (drop k s) = None" by simp
    with Cons.prems have "match_rep cap [(b, Eol)] pos s ks = Some r" by simp
    with Cons.IH show ?thesis by auto
  qed
qed

lemma re_match_all_iff:
  assumes "p 10 \<or> s = [] \<or> last s \<noteq> 10"
  shows "re_match [(a, Bol), many1 p, (b, Eol)] s \<longleftrightarrow> s \<noteq> [] \<and> (\<forall>c\<in>set s. p c)"
proof
  assume "s \<noteq> [] \<and> (\<forall>c\<in>set s. p c)"
  then have "match_items [(a, Bol), many1 p, (b, Eol)] 0 s = Some ([], [])"
    by (intro match_whole) simp_all
  then show "re_match [(a, Bol), many1 p, (b, Eol)] s"
    by (simp only: re_match_def) simp
next
  assume m: "re_match [(a, Bol), many1 p, (b, Eol)] s"
  let ?n = "length (takeWhile p s)"
  from m obtain r where
    "match_rep False [(b, Eol)] 0 s (counts True 1 None ?n) = Some r"
    by (auto simp: re_match_def many1_def)
  then obtain k where k: "k \<in> set (counts True 1 None ?n)"
      and d: "drop k s = [] \<or> drop k s = [10]"
    using match_rep_eol by blast
  from k have k1: "1 \<le> k" and kn: "k \<le> ?n" using counts_bounds by blast+
  have ns: "?n \<le> length s" by (rule length_takeWhile_le)
  from k1 kn ns have ne: "s \<noteq> []" by auto
  have pre: "\<forall>c\<in>set (take k s). p c"
  proof
    fix c assume "c \<in> set (take k s)"
    then have "c \<in> set (take ?n s)" using kn by (meson set_take_subset_set_take subsetD)
    then have "c \<in> set (takeWhile p s)" by (simp add: takeWhile_eq_take [symmetric])
    then show "p c" by (rule set_takeWhileD [THEN conjunct2])
  qed
  have "\<forall>c\<in>set s. p c"
  proof (cases "drop k s = []")
    case True
    then have "take k s = s" by simp
    with pre show ?thesis by simp
  next
    case False
    with d have d10: "drop k s = [10]" by simp
    then have kl: "k < length s" by (cases "k < length s") simp_all
    from kl have "last (drop k s) = last s" by (rule last_drop)
    with d10 have "last s = 10" by simp
    with assms ne have p10: "p 10" by auto
    have "take k s @ drop k s = s" by simp
    with d10 have "take k s @ [10] = s" by simp
    then have "set s = set (take k s @ [10])" by simp
    with pre p10 show ?thesis by simp
  qed
  with ne show "s \<noteq> [] \<and> (\<forall>c\<in>set s. p c)" by simp
qed

lemma match_short_run:
  assumes "length (takeWhile p s) < lo"
  shows "match_items ((cap, Rep p lo hi g) # r) pos s = None"
proof -
  have "counts g lo hi (length (takeWhile p s)) = []"
    using assms by (auto simp: counts_def Let_def split: option.splits)
  then show ?thesis by simp
qed

lemma sin_suspensivos_run: "sin_suspensivos s \<Longrightarrow> length (takeWhile (\<lambda>x. x = 46) s) < 3"
  by (cases s) simp_all

lemma re_sub_sin_suspensivos:
  "sin_suspensivos s \<Longrightarrow>
     re_sub_at ((cap, Rep (\<lambda>x. x = 46) 3 hi g) # r) repl pos s = s"
proof (induction s arbitrary: pos)
  case Nil
  have "match_items ((cap, Rep (\<lambda>x. x = 46) 3 hi g) # r) pos [] = None"
    by (rule match_short_run) simp
  then show ?case by simp
next
  case (Cons c s)
  from Cons.prems have "length (takeWhile (\<lambda>x. x = 46) (c # s)) < 3"
    by (rule sin_suspensivos_run)
  then have "match_items ((cap, Rep (\<lambda>x. x = 46) 3 hi g) # r) pos (c # s) = None"
    by (rule match_short_run)
  moreover from Cons.prems have "sin_suspensivos s" by simp
  ultimately show ?case using Cons.IH by simp
qed

lemma sub_dots_identity:
  assumes "sin_suspensivos s"
  shows "re_sub pat_dot_leader [] s = s" "re_sub pat_dots [] s = s"
  using assms
  by (simp_all add: re_sub_def pat_dot_leader_def pat_dots_def re_sub_sin_suspensivos
      del: re_sub_at.simps)

lemma match_dots:
  assumes "3 \<le> length (takeWhile (\<lambda>x. x = 46) s)"
  shows "match_items [(False, Rep (\<lambda>x. x = 46) 3 None True)] pos s
           = Some ([], dropWhile (\<lambda>x. x = 46) s)"
proof -
  let ?n = "length (takeWhile (\<lambda>x. x = 46) s)"
  have c: "counts True 3 None ?n = ?n # rev [3..<?n]"
    using assms by (intro counts_greedy_max) simp_all
  have d: "drop ?n s = dropWhile (\<lambda>x. x = 46) s"
    by (simp add: dropWhile_eq_drop)
  show ?thesis
    by (simp only: match_items.simps match_rep.simps c d) simp
qed

lemma re_sub_dots_Cons:
  "re_sub_at [(False, Rep (\<lambda>x. x = 46) 3 None True)] [] pos (c # s)
     = (if 3 \<le> length (takeWhile (\<lambda>x. x = 46) (c # s))
        then re_sub_at [(False, Rep (\<lambda>x. x = 46) 3 None True)] []
               (pos + (length (c # s) - length (dropWhile (\<lambda>x. x = 46) (c # s))))
               (dropWhile (\<lambda>x. x = 46) (c # s))
        else c # re_sub_at [(False, Rep (\<lambda>x. x = 46) 3 None True)] [] (Suc pos) s)"
proof (cases "3 \<le> length (takeWhile (\<lambda>x. x = 46) (c # s))")
  case True
  then have c: "c = 46" by (cases "c = 46") simp_all
  have "length (dropWhile (\<lambda>x. x = 46) s) < Suc (length s)"
    using length_dropWhile_le [of "\<lambda>x. x = 46" s] by simp
  with True c show ?thesis
    using match_dots [OF True, of pos] by (simp del: match_items.simps)
next
  case False
  then have "match_items [(False, Rep (\<lambda>x. x = 46) 3 None True)] pos (c # s) = None"
    by (intro match_short_run) simp
  with False show ?thesis by (simp del: match_items.simps)
qed

lemma re_sub_dots_Nil:
  "re_sub_at [(False, Rep (\<lambda>x. x = 46) 3 None True)] [] pos [] = []"
  by (simp add: counts_def)

lemma takeWhile_re_sub_dots:
  "length (takeWhile (\<lambda>x. x = 46) s) < 3 \<Longrightarrow>
     takeWhile (\<lambda>x. x = 46) (re_sub_at [(False, Rep (\<lambda>x. x = 46) 3 None True)] [] pos s)
       = takeWhile (\<lambda>x. x = 46) s"
proof (induction s arbitrary: pos)
  case Nil
  show ?case by (simp only: re_sub_dots_Nil)
next
  case (Cons c s)
  from Cons.prems have n: "\<not> 3 \<le> length (takeWhile (\<lambda>x. x = 46) (c # s))" by simp
  show ?case
  proof (cases "c = 46")
    case True
    with Cons.prems have "length (takeWhile (\<lambda>x. x = 46) s) < 3" by simp
    from Cons.IH [OF this] True n show ?thesis
      by (simp only: re_sub_dots_Cons if_False) simp
  next
    case False
    with n show ?thesis by (simp only: re_sub_dots_Cons if_False) simp
  qed
qed

lemma sin_suspensivos_re_sub_dots:
  "sin_suspensivos (re_sub_at [(False, Rep (\<lambda>x. x = 46) 3 None True)] [] pos s)"
proof (induction s arbitrary: pos rule: length_induct)
  case (1 s)
  show ?case
  proof (cases s)
    case Nil
    then show ?thesis by (simp only: re_sub_dots_Nil) simp
  next
    case (Cons c s')
    show ?thesis
    proof (cases "3 \<le> length (takeWhile (\<lambda>x. x = 46) (c # s'))")
      case True
      have "length (dropWhile (\<lambda>x. x = 46) (c # s')) < length s"
        using True length_dropWhile_le [of "\<lambda>x. x = 46" s'] by (cases "c = 46") (simp_all add: Cons)
      with 1 True show ?thesis unfolding Cons by (simp only: re_sub_dots_Cons if_True)
    next
      case False
      then have l: "length (takeWhile (\<lambda>x. x = 46) (c # s')) < 3" by simp
      have ih: "sin_suspensivos (re_sub_at [(False, Rep (\<lambda>x. x = 46) 3 None True)] [] (Suc pos) s')"
        using 1 Cons by simp
      have "takeWhile (\<lambda>x. x = 46)
              (c # re_sub_at [(False, Rep (\<lambda>x. x = 46) 3 None True)] [] (Suc pos) s')
            = takeWhile (\<lambda>x. x = 46) (c # s')"
      proof (cases "c = 46")
        case True
        with l have "length (takeWhile (\<lambda>x. x = 46) s') < 3" by simp
        from takeWhile_re_sub_dots [OF this] True show ?thesis by simp
      next
        case False
        then show ?thesis by simp
      qed
      with l ih False show ?thesis
        unfolding Cons by (simp only: re_sub_dots_Cons if_False sin_suspensivos.simps)
    qed
  qed
qed

lemma sin_suspensivos_previa: "sin_suspensivos (oracion_previa fragmento)"
  by (simp only: oracion_previa_def Let_def re_sub_def pat_dots_def sin_suspensivos_re_sub_dots)

lemma sin_suspensivos_append_right: "sin_suspensivos (a @ b) \<Longrightarrow> sin_suspensivos b"
  by (induction a) simp_all

lemma length_takeWhile_append: "length (takeWhile P a) \<le> length (takeWhile P (a @ b))"
  by (induction a) auto

lemma sin_suspensivos_append_left: "sin_suspensivos (a @ b) \<Longrightarrow> sin_suspensivos a"
proof (induction a)
  case Nil
  show ?case by simp
next
  case (Cons c a)
  have "length (takeWhile (\<lambda>x. x = 46) (c # a))
          \<le> length (takeWhile (\<lambda>x. x = 46) ((c # a) @ b))"
    by (rule length_takeWhile_append)
  with Cons show ?case by simp
qed

lemma sin_suspensivos_sub: "sin_suspensivos (a @ x @ b) \<Longrightarrow> sin_suspensivos x"
  by (blast dest: sin_suspensivos_append_right sin_suspensivos_append_left)

lemma split_on_parts:
  "(\<exists>b. s = hd (split_on sep s) @ b) \<and> (\<forall>x\<in>set (split_on sep s). \<exists>a b. s = a @ x @ b)"
proof (induction s)
  case Nil
  show ?case by simp
next
  case (Cons c s)
  from Cons obtain b0 where b0: "s = hd (split_on sep s) @ b0" by blast
  from Cons have all: "\<forall>x\<in>set (split_on sep s). \<exists>a b. s = a @ x @ b" by blast
  show ?case
  proof (cases "c = sep")
    case True
    have "\<exists>a b. c # s = a @ x @ b" if "x \<in> set (split_on sep s)" for x
    proof -
      from all that obtain a b where "s = a @ x @ b" by blast
      then have "c # s = (c # a) @ x @ b" by simp
      then show ?thesis by blast
    qed
    moreover have "c # s = [] @ [] @ (c # s)" by simp
    then have "\<exists>a b. c # s = a @ [] @ b" by blast
    ultimately show ?thesis using True by auto
  next
    case False
    obtain p ps where sp: "split_on sep s = p # ps"
      using split_on_nonempty [of sep s] by (cases "split_on sep s") auto
    from b0 sp have p: "s = p @ b0" by simp
    have "\<exists>a b. c # s = a @ x @ b" if "x \<in> set ps" for x
    proof -
      from all that sp obtain a b where "s = a @ x @ b" by auto
      then have "c # s = (c # a) @ x @ b" by simp
      then show ?thesis by blast
    qed
    moreover from p have "c # s = [] @ (c # p) @ b0" by simp
    then have "\<exists>a b. c # s = a @ (c # p) @ b" by blast
    moreover from p have "c # s = (c # p) @ b0" by simp
    ultimately show ?thesis using False sp by auto
  qed
qed

lemma split_on_sub: "x \<in> set (split_on sep s) \<Longrightarrow> \<exists>a b. s = a @ x @ b"
  using split_on_parts by blast

lemma celda_sin_suspensivos:
  assumes "sin_suspensivos s" "x \<in> set (split_on sep s)"
  shows "sin_suspensivos x" "sin_suspensivos (strip x)"
proof -
  from assms(2) obtain a b where "s = a @ x @ b" using split_on_sub by blast
  with assms(1) show x: "sin_suspensivos x" using sin_suspensivos_sub by blast
  obtain a' b' where "x = a' @ strip x @ b'" using strip_decomp by blast
  with x show "sin_suspensivos (strip x)" using sin_suspensivos_sub by metis
qed

lemma celda_subset:
  assumes "x \<in> set (split_on sep s)"
  shows "set (strip x) \<subseteq> set s"
proof -
  from assms obtain a b where "s = a @ x @ b" using split_on_sub by blast
  then have "set x \<subseteq> set s" by auto
  with set_strip [of x] show ?thesis by blast
qed

lemma isspace_10: "py_isspace 10"
  by (simp add: py_isspace_def)

lemma celdas_de_celda_words:
  assumes "sin_suspensivos (strip celda0)"
  shows "celdas_de_celda celda0
           = (if pasa_filtros (strip celda0)
              then filter (\<lambda>texto. 3 < length texto) (items_de_celda (strip celda0)) else [])"
proof -
  let ?c = "strip celda0"
  have d: "re_match pat_dash_cell ?c \<longleftrightarrow> ?c \<noteq> [] \<and> (\<forall>x\<in>set ?c. x = 45 \<or> py_isspace x)"
    unfolding pat_dash_cell_def by (rule re_match_all_iff) (simp add: isspace_10)
  have "?c = [] \<or> last ?c \<noteq> 10"
    using strip_last [of celda0] isspace_10 by auto
  then have g: "re_match pat_digits ?c \<longleftrightarrow> ?c \<noteq> [] \<and> (\<forall>x\<in>set ?c. py_isdigit x)"
    unfolding pat_digits_def by (intro re_match_all_iff) simp
  have s: "strip (re_sub pat_dots [] (re_sub pat_dot_leader [] ?c)) = ?c"
    by (simp add: sub_dots_identity [OF assms] strip_idem)
  have f: "filter (\<lambda>sub_oracion. sub_oracion \<noteq> [] \<and> 3 < length sub_oracion) xs
             = filter (\<lambda>texto. 3 < length texto) xs" for xs :: "ustr list"
    by (rule filter_cong) auto
  show ?thesis
    unfolding celdas_de_celda_def Let_def s f
    by (auto simp: d g pasa_filtros_def items_de_celda_def list_all_iff)
qed

lemma limpiar_oracion_tabla:
  assumes "pipe \<in> set (oracion_previa fragmento)"
    and "\<not> re_match pat_divider (oracion_previa fragmento)"
  shows "limpiar_oracion fragmento
           = (case celdas_limpias (oracion_previa fragmento) of [] \<Rightarrow> [] | y # ys \<Rightarrow> y)"
  using assms by (simp add: limpiar_oracion_def Let_def)

lemma divider_words:
  "re_match pat_divider s
     \<longleftrightarrow> s \<noteq> [] \<and> list_all (\<lambda>c. py_isspace c \<or> c = pipe \<or> c = 45) s"
  unfolding pat_divider_def pipe_def list_all_iff
  by (rule re_match_all_iff) (simp add: isspace_10)

lemma concat_filtros:
  "concat (map (\<lambda>x. if P (f x) then filter L (g (f x)) else []) xs)
     = filter L (concat (map g (filter P (map f xs))))"
  by (induction xs) simp_all

lemma head_filter_find:
  "(case filter L xs of [] \<Rightarrow> [] | y # ys \<Rightarrow> y) = (case find L xs of None \<Rightarrow> [] | Some y \<Rightarrow> y)"
  by (induction xs) simp_all

lemma find_filter: "find L (filter P xs) = find (\<lambda>x. P x \<and> L x) xs"
  by (induction xs) simp_all

lemma celdas_limpias_words:
  assumes "sin_suspensivos oracion"
  shows "celdas_limpias oracion
           = filter (\<lambda>texto. 3 < length texto)
               (concat (map items_de_celda
                  (filter pasa_filtros (map strip (split_on pipe oracion)))))"
proof -
  have "map celdas_de_celda (split_on pipe oracion)
          = map (\<lambda>x. if pasa_filtros (strip x)
                       then filter (\<lambda>texto. 3 < length texto) (items_de_celda (strip x)) else [])
              (split_on pipe oracion)"
    using celda_sin_suspensivos(2) [OF assms] by (intro map_cong refl celdas_de_celda_words)
  then show ?thesis
    by (simp only: celdas_limpias_def concat_filtros)
qed

lemma items_sin_bullet:
  assumes "\<forall>x\<in>set xs. bullet \<notin> set x"
  shows "concat (map items_de_celda xs) = xs"
  using assms by (induction xs) (simp_all add: items_de_celda_def)

text \<open>
  Claim C10, amended. When the fragment, after the rules that come before the table
  branch (\<open>strip\<close>, list dash, trailing number, dot leaders), still has a pipe and is no
  divider row, \<open>limpiar_oracion\<close> returns one text and nothing of the other cells: the
  first text longer than 3 characters among the cells that, trimmed, are not empty, not
  dashes and whitespace only and not digits only, where a cell with bullet characters
  counts as its trimmed bullet items. Without bullet characters this is the first cell
  that survives the trimming, the filters and the threshold. The result is the empty
  string when there is no such text.
\<close>

theorem first_surviving_cell:
  assumes "pipe \<in> set (oracion_previa fragmento)"
    and "\<not> list_all (\<lambda>c. py_isspace c \<or> c = pipe \<or> c = 45) (oracion_previa fragmento)"
  shows "limpiar_oracion fragmento = primer_texto_valido (oracion_previa fragmento)
       \<and> (bullet \<notin> set (oracion_previa fragmento) \<longrightarrow>
            limpiar_oracion fragmento = primera_celda_valida (oracion_previa fragmento))
       \<and> (limpiar_oracion fragmento = [] \<or> 3 < length (limpiar_oracion fragmento))"
proof -
  let ?o = "oracion_previa fragmento"
  let ?cs = "map strip (split_on pipe ?o)"
  have d: "\<not> re_match pat_divider ?o" using assms(2) by (simp add: divider_words)
  have t: "limpiar_oracion fragmento = (case celdas_limpias ?o of [] \<Rightarrow> [] | y # ys \<Rightarrow> y)"
    using assms(1) d by (rule limpiar_oracion_tabla)
  have w: "celdas_limpias ?o
           = filter (\<lambda>texto. 3 < length texto)
               (concat (map items_de_celda (filter pasa_filtros ?cs)))"
    using sin_suspensivos_previa by (rule celdas_limpias_words)
  have 1: "limpiar_oracion fragmento = primer_texto_valido ?o"
    by (simp only: t w head_filter_find primer_texto_valido_def)
  have 2: "limpiar_oracion fragmento = primera_celda_valida ?o" if "bullet \<notin> set ?o"
  proof -
    have "\<forall>x\<in>set (filter pasa_filtros ?cs). bullet \<notin> set x"
      using that celda_subset [of _ pipe ?o] by auto
    then have "concat (map items_de_celda (filter pasa_filtros ?cs)) = filter pasa_filtros ?cs"
      by (rule items_sin_bullet)
    then show ?thesis
      by (simp only: 1 primer_texto_valido_def primera_celda_valida_def find_filter)
  qed
  have 3: "limpiar_oracion fragmento = [] \<or> 3 < length (limpiar_oracion fragmento)"
  proof (cases "celdas_limpias ?o")
    case Nil
    then show ?thesis by (simp add: t)
  next
    case (Cons y ys)
    then have "y \<in> set (celdas_limpias ?o)" by simp
    then have "3 < length y" by (rule celdas_limpias_elem)
    with Cons show ?thesis by (simp add: t)
  qed
  from 1 2 3 show ?thesis by blast
qed

lemma previa_Nombre: "oracion_previa (u ''| Nombre | 4 | Edad |'') = u ''| Nombre | 4 | Edad |''"
  by (simp add: oracion_previa_def eval_defs)

lemma celdas_validas_Nombre:
  "primera_celda_valida (u ''| Nombre | 4 | Edad |'') = u ''Nombre''"
  by (simp add: primera_celda_valida_def pasa_filtros_def eval_defs)

theorem first_surviving_cell_witness:
  "pipe \<in> set (oracion_previa (u ''| Nombre | 4 | Edad |''))
   \<and> bullet \<notin> set (oracion_previa (u ''| Nombre | 4 | Edad |''))
   \<and> limpiar_oracion (u ''| Nombre | 4 | Edad |'') = u ''Nombre''"
proof -
  have p: "pipe \<in> set (oracion_previa (u ''| Nombre | 4 | Edad |''))"
    by (simp add: previa_Nombre) (simp add: u_def pipe_def)
  have d: "\<not> list_all (\<lambda>c. py_isspace c \<or> c = pipe \<or> c = 45)
               (oracion_previa (u ''| Nombre | 4 | Edad |''))"
    by (simp add: previa_Nombre) (simp add: u_def pipe_def py_isspace_def)
  have b: "bullet \<notin> set (oracion_previa (u ''| Nombre | 4 | Edad |''))"
    by (simp add: previa_Nombre) (simp add: u_def bullet_def)
  from first_surviving_cell [OF p d] b
  have "limpiar_oracion (u ''| Nombre | 4 | Edad |'')
          = primera_celda_valida (oracion_previa (u ''| Nombre | 4 | Edad |''))"
    by blast
  then have "limpiar_oracion (u ''| Nombre | 4 | Edad |'') = u ''Nombre''"
    by (simp only: previa_Nombre celdas_validas_Nombre)
  with p b show ?thesis by blast
qed

text \<open>
  Claim C10 as stated fails. The dot leader rule, which runs before the table branch,
  can remove the pipe with the text after it: the first fragment below has a pipe and
  is no divider row, and its first cell that survives the trimming, the filters and
  the threshold is \<open>x...\<close>, yet the result is the single character \<open>x\<close>. Of a cell
  with bullet characters the result is the first bullet item, not the cell. And the
  cells are those of the fragment after the earlier rules: the rule for a trailing
  number cuts the last cell of the third fragment.
\<close>

theorem first_surviving_cell_counterexample:
  "pipe \<in> set (u ''x...|Atsa wi 1 2'')
   \<and> \<not> list_all (\<lambda>c. py_isspace c \<or> c = pipe \<or> c = 45) (u ''x...|Atsa wi 1 2'')
   \<and> primera_celda_valida (u ''x...|Atsa wi 1 2'') = u ''x...''
   \<and> limpiar_oracion (u ''x...|Atsa wi 1 2'') = u ''x''
   \<and> pipe \<in> set (u ''| Yusa '' @ [bullet] @ u '' Atsa wi |'')
   \<and> \<not> list_all (\<lambda>c. py_isspace c \<or> c = pipe \<or> c = 45)
         (u ''| Yusa '' @ [bullet] @ u '' Atsa wi |'')
   \<and> primera_celda_valida (u ''| Yusa '' @ [bullet] @ u '' Atsa wi |'')
       = u ''Yusa '' @ [bullet] @ u '' Atsa wi''
   \<and> limpiar_oracion (u ''| Yusa '' @ [bullet] @ u '' Atsa wi |'') = u ''Yusa''
   \<and> pipe \<in> set (u ''|Atsa wi 12'')
   \<and> \<not> list_all (\<lambda>c. py_isspace c \<or> c = pipe \<or> c = 45) (u ''|Atsa wi 12'')
   \<and> primera_celda_valida (u ''|Atsa wi 12'') = u ''Atsa wi 12''
   \<and> limpiar_oracion (u ''|Atsa wi 12'') = u ''Atsa wi''"
proof -
  have 1: "pipe \<in> set (u ''x...|Atsa wi 1 2'')" by (simp add: u_def pipe_def)
  have 2: "\<not> list_all (\<lambda>c. py_isspace c \<or> c = pipe \<or> c = 45) (u ''x...|Atsa wi 1 2'')"
    by (simp add: u_def pipe_def py_isspace_def)
  have 3: "primera_celda_valida (u ''x...|Atsa wi 1 2'') = u ''x...''"
    by (simp add: primera_celda_valida_def pasa_filtros_def eval_defs)
  have p: "oracion_previa (u ''x...|Atsa wi 1 2'') = u ''x''"
    by (simp add: oracion_previa_def eval_defs)
  have 4: "limpiar_oracion (u ''x...|Atsa wi 1 2'') = u ''x''"
    unfolding limpiar_oracion_def p by (simp add: eval_defs)
  have 5: "pipe \<in> set (u ''| Yusa '' @ [bullet] @ u '' Atsa wi |'')"
    by (simp add: u_def pipe_def)
  have 6: "\<not> list_all (\<lambda>c. py_isspace c \<or> c = pipe \<or> c = 45)
         (u ''| Yusa '' @ [bullet] @ u '' Atsa wi |'')"
    by (simp add: u_def pipe_def py_isspace_def)
  have 7: "primera_celda_valida (u ''| Yusa '' @ [bullet] @ u '' Atsa wi |'')
       = u ''Yusa '' @ [bullet] @ u '' Atsa wi''"
    by (simp add: primera_celda_valida_def pasa_filtros_def eval_defs)
  have q: "oracion_previa (u ''| Yusa '' @ [bullet] @ u '' Atsa wi |'')
       = u ''| Yusa '' @ [bullet] @ u '' Atsa wi |''"
    by (simp add: oracion_previa_def eval_defs)
  have 8: "limpiar_oracion (u ''| Yusa '' @ [bullet] @ u '' Atsa wi |'') = u ''Yusa''"
    unfolding limpiar_oracion_def q
    by (simp add: celdas_limpias_def celdas_de_celda_def eval_defs)
  have 9: "pipe \<in> set (u ''|Atsa wi 12'')" by (simp add: u_def pipe_def)
  have 10: "\<not> list_all (\<lambda>c. py_isspace c \<or> c = pipe \<or> c = 45) (u ''|Atsa wi 12'')"
    by (simp add: u_def pipe_def py_isspace_def)
  have 11: "primera_celda_valida (u ''|Atsa wi 12'') = u ''Atsa wi 12''"
    by (simp add: primera_celda_valida_def pasa_filtros_def eval_defs)
  have r: "oracion_previa (u ''|Atsa wi 12'') = u ''|Atsa wi''"
    by (simp add: oracion_previa_def eval_defs)
  have 12: "limpiar_oracion (u ''|Atsa wi 12'') = u ''Atsa wi''"
    unfolding limpiar_oracion_def r
    by (simp add: celdas_limpias_def celdas_de_celda_def eval_defs)
  from 1 2 3 4 5 6 7 8 9 10 11 12 show ?thesis by blast
qed

end
